theory Spec2Isabelle
  imports Main "HOL-Library.Sublist"
begin

section \<open>The Plan-Reflection planner: data model\<close>

text \<open>
  The planner lives in \<^verbatim>\<open>src/google/adk/planners/plan_reflection_planner.py\<close>.
  It works on \<^verbatim>\<open>google.genai.types.Part\<close> objects; that class belongs to an
  external library, so only the three attributes the planner reads or writes are
  modelled: \<^verbatim>\<open>text\<close>, \<^verbatim>\<open>function_call\<close> (with its \<^verbatim>\<open>name\<close>) and
  \<^verbatim>\<open>thought\<close>. All three are optional in the library, hence \<open>option\<close>.

  A Python \<^verbatim>\<open>str\<close> is modelled as \<open>string\<close>. A code point outside ASCII stands
  for its UTF-8 bytes; the six tags are ASCII, so searching for a tag, testing a tag
  prefix and cutting right behind a tag give the same pieces either way.
\<close>

record FunctionCall =
  name :: "string option"

record Part =
  "text" :: "string option"
  function_call :: "FunctionCall option"
  thought :: "bool option"

text \<open>
  Parts are Python objects: the caller's list and the returned list hold references, and
  \<^verbatim>\<open>_mark_as_thought\<close> writes through a reference. The store is a list of parts, a
  reference is an index into it, and a newly constructed part is put behind the last one.
\<close>

type_synonym ref = nat
type_synonym heap = "Part list"

definition alloc :: "Part \<Rightarrow> heap \<Rightarrow> ref \<times> heap" where
  "alloc p h = (length h, h @ [p])"

definition new_text_part :: "string \<Rightarrow> Part" where
  \<comment> \<open>\<^verbatim>\<open>types.Part(text=t)\<close>: every other attribute keeps its default \<^verbatim>\<open>None\<close>.\<close>
  "new_text_part t = \<lparr>text = Some t, function_call = None, thought = None\<rparr>"

definition valid_refs :: "heap \<Rightarrow> ref list \<Rightarrow> bool" where
  "valid_refs h rs = list_all (\<lambda>r. r < length h) rs"

section \<open>The tags\<close>

definition PLANNING_TAG :: string where "PLANNING_TAG = ''/*PLANNING*/''"
definition REASONING_TAG :: string where "REASONING_TAG = ''/*REASONING*/''"
definition ACTION_TAG :: string where "ACTION_TAG = ''/*ACTION*/''"
definition REFLECTION_TAG :: string where "REFLECTION_TAG = ''/*REFLECTION*/''"
definition REPLANNING_TAG :: string where "REPLANNING_TAG = ''/*REPLANNING*/''"
definition FINAL_ANSWER_TAG :: string where "FINAL_ANSWER_TAG = ''/*FINAL_ANSWER*/''"

section \<open>Python's string operations\<close>

definition truthy :: "string option \<Rightarrow> bool" where
  \<comment> \<open>the truth value of an optional string: \<^verbatim>\<open>None\<close> and \<^verbatim>\<open>''\<close> are false\<close>
  "truthy s = (case s of None \<Rightarrow> False | Some t \<Rightarrow> t \<noteq> [])"

fun contains :: "string \<Rightarrow> string \<Rightarrow> bool" where
  \<comment> \<open>\<^verbatim>\<open>sep in text\<close>\<close>
  "contains [] sep = (sep = [])"
| "contains (c # cs) sep = (prefix sep (c # cs) \<or> contains cs sep)"

fun rfind_from :: "string \<Rightarrow> string \<Rightarrow> nat \<Rightarrow> int" where
  \<comment> \<open>the highest position \<open>\<le> i\<close> at which \<open>sep\<close> starts in \<open>text\<close>, or \<open>-1\<close>\<close>
  "rfind_from text' sep 0 = (if prefix sep text' then 0 else - 1)"
| "rfind_from text' sep (Suc i) =
     (if prefix sep (drop (Suc i) text') then int (Suc i) else rfind_from text' sep i)"

definition rfind :: "string \<Rightarrow> string \<Rightarrow> int" where
  \<comment> \<open>\<^verbatim>\<open>text.rfind(sep)\<close>\<close>
  "rfind text' sep = rfind_from text' sep (length text')"

definition startswith :: "string \<Rightarrow> string \<Rightarrow> bool" where
  \<comment> \<open>\<^verbatim>\<open>text.startswith(tag)\<close>\<close>
  "startswith text' tag = prefix tag text'"

section \<open>The response segmenter\<close>

definition split_by_last_pattern :: "string \<Rightarrow> string \<Rightarrow> string \<times> string" where
  "split_by_last_pattern text' separator =
     (let index = rfind text' separator in
      if index = - 1 then (text', [])
      else (take (nat (index + int (length separator))) text',
            drop (nat (index + int (length separator))) text'))"

definition mark_as_thought :: "ref \<Rightarrow> heap \<Rightarrow> heap" where
  "mark_as_thought response_part h =
     (if truthy (text (h ! response_part))
      then h[response_part := (h ! response_part)\<lparr>thought := Some True\<rparr>]
      else h)"

definition narrative_tags :: "string list" where
  "narrative_tags = [PLANNING_TAG, REASONING_TAG, ACTION_TAG, REFLECTION_TAG, REPLANNING_TAG]"

definition handle_non_function_call_parts :: "ref \<Rightarrow> ref list \<Rightarrow> heap \<Rightarrow> ref list \<times> heap" where
  "handle_non_function_call_parts response_part preserved_parts h =
     (if truthy (text (h ! response_part))
         \<and> contains (the (text (h ! response_part))) FINAL_ANSWER_TAG
      then
        (let (reasoning_text, final_answer_text) =
               split_by_last_pattern (the (text (h ! response_part))) FINAL_ANSWER_TAG;
             (preserved1, h1) =
               (if reasoning_text \<noteq> [] then
                  (let (reasoning_part, h') = alloc (new_text_part reasoning_text) h
                   in (preserved_parts @ [reasoning_part], mark_as_thought reasoning_part h'))
                else (preserved_parts, h))
         in if final_answer_text \<noteq> [] then
              (let (final_part, h2) = alloc (new_text_part final_answer_text) h1
               in (preserved1 @ [final_part], h2))
            else (preserved1, h1))
      else
        (let response_text = (case text (h ! response_part) of None \<Rightarrow> [] | Some t \<Rightarrow> t);
             h1 = (if response_text \<noteq> [] \<and> list_ex (startswith response_text) narrative_tags
                   then mark_as_thought response_part h else h)
         in (preserved_parts @ [response_part], h1)))"

function scan_loop :: "ref list \<Rightarrow> nat \<Rightarrow> ref list \<Rightarrow> heap \<Rightarrow> ref list \<times> int \<times> heap" where
  "scan_loop response_parts i preserved_parts h =
     (if i < length response_parts then
        (case function_call (h ! (response_parts ! i)) of
           Some fc \<Rightarrow>
             if \<not> truthy (name fc) then scan_loop response_parts (Suc i) preserved_parts h
             else (preserved_parts @ [response_parts ! i], int i, h)
         | None \<Rightarrow>
             (case handle_non_function_call_parts (response_parts ! i) preserved_parts h of
                (preserved', h') \<Rightarrow> scan_loop response_parts (Suc i) preserved' h'))
      else (preserved_parts, - 1, h))"
  by pat_completeness auto
termination
  by (relation "measure (\<lambda>(response_parts, i, preserved_parts, h). length response_parts - i)") auto

function lookahead_loop :: "ref list \<Rightarrow> nat \<Rightarrow> ref list \<Rightarrow> heap \<Rightarrow> ref list" where
  "lookahead_loop response_parts j preserved_parts h =
     (if j < length response_parts then
        (if function_call (h ! (response_parts ! j)) \<noteq> None
         then lookahead_loop response_parts (Suc j) (preserved_parts @ [response_parts ! j]) h
         else preserved_parts)
      else preserved_parts)"
  by pat_completeness auto
termination
  by (relation "measure (\<lambda>(response_parts, j, preserved_parts, h). length response_parts - j)") auto

definition process_planning_response ::
  "'ctx \<Rightarrow> ref list \<Rightarrow> heap \<Rightarrow> ref list option \<times> heap" where
  "process_planning_response callback_context response_parts h =
     (if response_parts = [] then (None, h)
      else
        (case scan_loop response_parts 0 [] h of
           (preserved_parts, first_fc_part_index, h') \<Rightarrow>
             (Some (if first_fc_part_index > 0
                    then lookahead_loop response_parts (nat (first_fc_part_index + 1))
                           preserved_parts h'
                    else preserved_parts),
              h')))"

section \<open>The instruction builder\<close>

text \<open>
  \<^verbatim>\<open>_build_reflection_planner_instruction\<close> joins seven blocks of text. Each block is
  written here line by line as in the source; where the source is an f-string, the tag
  constants stand where the source names them.
\<close>

fun join :: "string \<Rightarrow> string list \<Rightarrow> string" where
  \<comment> \<open>\<^verbatim>\<open>sep.join(xs)\<close>\<close>
  "join sep [] = []"
| "join sep [x] = x"
| "join sep (x # y # ys) = x @ sep @ join sep (y # ys)"

definition rightwards_arrow :: string where
  \<comment> \<open>the arrow U+2192 of the source text, as its three UTF-8 bytes\<close>
  "rightwards_arrow = [CHR 0xE2, CHR 0x86, CHR 0x92]"

definition high_level_preamble :: string where
  "high_level_preamble =
     ''\<newline>'' @
     ''When answering the question, try to leverage the available tools to gather the information instead of your memorized knowledge.\<newline>'' @
     ''\<newline>'' @
     ''Follow this enhanced process when answering the question:\<newline>'' @
     ''\<newline>'' @
     ''(1) **Initial Planning Phase**: First come up with a comprehensive plan in natural language text format\<newline>'' @
     ''(2) **Execution Phase**: Use tools to execute the plan with reasoning between tool code snippets to summarize current state and determine next steps. Tool code snippets and reasoning should be interleaved with each other\<newline>'' @
     ''(3) **Reflection Phase**: After each major step or when encountering obstacles, reflect on the progress, effectiveness of the approach, and quality of results obtained\<newline>'' @
     ''(4) **Replanning Phase**: Based on reflections, adjust the plan if necessary, considering new information, alternative approaches, or course corrections\<newline>'' @
     ''(5) **Iterative Execution**: Continue with refined execution based on updated plans\<newline>'' @
     ''(6) **Final Answer**: Return one comprehensive final answer incorporating all insights gained\<newline>'' @
     ''\<newline>'' @
     ''Follow this structured format when answering the question:\<newline>'' @
     ''\<newline>'' @
     ''- **(1) '' @ PLANNING_TAG @ ''**: The initial planning part should be under this tag\<newline>'' @
     ''- **(2) '' @ ACTION_TAG @ ''**: Tool code snippets should be under this tag\<newline>'' @
     ''- **(3) '' @ REASONING_TAG @ ''**: Reasoning parts should be under this tag\<newline>'' @
     ''- **(4) '' @ REFLECTION_TAG @ ''**: Critical analysis of progress, results quality, approach effectiveness, and identification of potential issues or improvements\<newline>'' @
     ''- **(5) '' @ REPLANNING_TAG @ ''**: Updated plans, alternative strategies, or course corrections based on reflections and new information discovered\<newline>'' @
     ''- **(6) '' @ FINAL_ANSWER_TAG @ ''**: The comprehensive final answer incorporating all findings and insights\<newline>'' @
     ''\<newline>'' @
     ''**Process Flow Guidelines:**\<newline>'' @
     ''- Interleave ACTION_TAG and REASONING_TAG as you execute steps\<newline>'' @
     ''- Use REFLECTION_TAG after completing significant milestones or when encountering challenges\<newline>'' @
     ''- Follow REFLECTION_TAG with REPLANNING_TAG when adjustments to the approach are needed\<newline>'' @
     ''- Continue the ACTION '' @ rightwards_arrow @ '' REASONING '' @ rightwards_arrow @ '' REFLECTION '' @ rightwards_arrow @ '' REPLANNING cycle as necessary\<newline>'' @
     ''- Multiple reflection-replanning cycles are encouraged for complex problems\<newline>'' @
     ''- End with FINAL_ANSWER_TAG containing the complete, well-reasoned response\<newline>''"

definition planning_preamble :: string where
  "planning_preamble =
     ''\<newline>'' @
     PLANNING_TAG @ '' Requirements:\<newline>'' @
     ''Create a numbered plan that breaks down the user query into actionable steps. Each step should specify which tools to use.  \<newline>''"

definition reasoning_preamble :: string where
  "reasoning_preamble =
     ''\<newline>'' @
     ''Below are the requirements for the reasoning:\<newline>'' @
     ''The reasoning makes a summary of the current trajectory based on the user query and tool outputs.\<newline>'' @
     ''Based on the tool outputs and plan, the reasoning also comes up with instructions to the next steps, making the trajectory closer to the final answer.\<newline>''"

definition reflection_preamble :: string where
  "reflection_preamble =
     ''\<newline>'' @
     REFLECTION_TAG @ '' Requirements - ABSOLUTELY MANDATORY:\<newline>'' @
     ''After completing your actions, you MUST include this section to:\<newline>'' @
     ''1. Evaluate if your actions achieved the intended goals\<newline>'' @
     ''2. Identify any gaps or issues in your approach\<newline>'' @
     ''3. Assess if you have enough information to answer the user's query\<newline>'' @
     ''4. Determine if replanning is necessary\<newline>'' @
     ''\<newline>'' @
     ''This section is REQUIRED - do not proceed to final answer without reflection.\<newline>''"

definition replanning_preamble :: string where
  "replanning_preamble =
     ''\<newline>'' @
     REPLANNING_TAG @ '' Requirements (conditional):\<newline>'' @
     ''Only if reflection reveals issues, create a revised plan and execute it with new '' @ ACTION_TAG @ '' and '' @ REASONING_TAG @ '' sections. \<newline>''"

definition final_answer_preamble :: string where
  "final_answer_preamble =
     ''\<newline>'' @
     FINAL_ANSWER_TAG @ '' Requirements:\<newline>'' @
     ''Provide your final answer only after completing reflection. Base your answer on execution results and reflection insights.\<newline>''"

definition tool_code_without_python_libraries_preamble :: string where
  "tool_code_without_python_libraries_preamble =
     ''\<newline>'' @
     ''Below are the requirements for the tool code:\<newline>'' @
     ''\<newline>'' @
     ''**Custom Tools:** The available tools are described in the context and can be directly used.\<newline>'' @
     ''- Code must be valid self-contained Python snippets with no imports and no references to tools or Python libraries that are not in the context.\<newline>'' @
     ''- You cannot use any parameters or fields that are not explicitly defined in the APIs in the context.\<newline>'' @
     ''- The code snippets should be readable, efficient, and directly relevant to the user query and reasoning steps.\<newline>'' @
     ''- When using the tools, you should use the library name together with the function name, e.g., vertex_search.search().\<newline>'' @
     ''- If Python libraries are not provided in the context, NEVER write your own code other than the function calls using the provided tools.\<newline>''"

definition build_reflection_planner_instruction :: string where
  "build_reflection_planner_instruction =
     join ''\<newline>\<newline>''
       [high_level_preamble,
        planning_preamble,
        reasoning_preamble,
        reflection_preamble,
        replanning_preamble,
        final_answer_preamble,
        tool_code_without_python_libraries_preamble]"

definition build_planning_instruction :: "'ctx \<Rightarrow> 'req \<Rightarrow> string" where
  "build_planning_instruction readonly_context llm_request = build_reflection_planner_instruction"

section \<open>Notions used to state the properties\<close>

definition has_final_answer :: "Part \<Rightarrow> bool" where
  \<comment> \<open>the test of the first branch of \<^verbatim>\<open>_handle_non_function_call_parts\<close>\<close>
  "has_final_answer p = (truthy (text p) \<and> contains (the (text p)) FINAL_ANSWER_TAG)"

definition starts_with_narrative_tag :: "Part \<Rightarrow> bool" where
  \<comment> \<open>the test of the second branch: a non-empty text that starts with one of the five tags\<close>
  "starts_with_narrative_tag p =
     (case text p of None \<Rightarrow> False
      | Some t \<Rightarrow> t \<noteq> [] \<and> list_ex (startswith t) narrative_tags)"

definition is_function_call :: "Part \<Rightarrow> bool" where
  \<comment> \<open>the truth value of \<^verbatim>\<open>part.function_call\<close>\<close>
  "is_function_call p = (function_call p \<noteq> None)"

definition is_kept_call :: "Part \<Rightarrow> bool" where
  \<comment> \<open>a function call whose name is neither \<^verbatim>\<open>None\<close> nor empty\<close>
  "is_kept_call p = (case function_call p of None \<Rightarrow> False | Some fc \<Rightarrow> truthy (name fc))"

definition split_parts :: "Part \<Rightarrow> Part list" where
  \<comment> \<open>the parts that the first branch constructs from a part with a final answer\<close>
  "split_parts p =
     (case split_by_last_pattern (the (text p)) FINAL_ANSWER_TAG of
        (reasoning_text, final_answer_text) \<Rightarrow>
          (new_text_part reasoning_text)\<lparr>thought := Some True\<rparr>
            # (if final_answer_text = [] then [] else [new_text_part final_answer_text]))"

definition call_part :: "string \<Rightarrow> Part" where
  \<comment> \<open>a part that only holds a function call with the given name (for the examples)\<close>
  "call_part n = \<lparr>text = None, function_call = Some \<lparr>name = Some n\<rparr>, thought = None\<rparr>"

definition marks_only :: "ref list \<Rightarrow> heap \<Rightarrow> heap \<Rightarrow> bool" where
  \<comment> \<open>\<open>h'\<close> is \<open>h\<close> with new parts behind it; an old part is the same, or it is one of \<open>rs\<close>,
      a text with a narrative tag in front and no final answer, and now marked as thought\<close>
  "marks_only rs h h' =
     (length h \<le> length h' \<and>
      (\<forall>q<length h. h' ! q = h ! q \<or>
         (q \<in> set rs \<and> function_call (h ! q) = None \<and> \<not> has_final_answer (h ! q)
          \<and> starts_with_narrative_tag (h ! q) \<and> h' ! q = (h ! q)\<lparr>thought := Some True\<rparr>)))"

definition first_fc_part_index :: "ref list \<Rightarrow> heap \<Rightarrow> int" where
  \<comment> \<open>the value of the variable \<^verbatim>\<open>first_fc_part_index\<close> when the first loop is left\<close>
  "first_fc_part_index response_parts h = fst (snd (scan_loop response_parts 0 [] h))"

definition every_thought_mark_on_input :: "ref list \<Rightarrow> ref list \<Rightarrow> heap \<Rightarrow> bool" where
  \<comment> \<open>Claim C7 in its own words: each part of the result with the thought flag set is an
      object of the caller's list, so that the flag shows there\<close>
  "every_thought_mark_on_input response_parts out h' =
     list_all (\<lambda>q. thought (h' ! q) = Some True \<longrightarrow> q \<in> set response_parts) out"

definition text_classification :: "Part \<Rightarrow> Part list" where
  \<comment> \<open>the text classification rule, by value: what stands in the result for one part
      that is no function call\<close>
  "text_classification p =
     (if has_final_answer p then split_parts p
      else [if starts_with_narrative_tag p then p\<lparr>thought := Some True\<rparr> else p])"

definition text_of :: "Part \<Rightarrow> string" where
  \<comment> \<open>\<^verbatim>\<open>part.text or ''\<close>\<close>
  "text_of p = (case text p of None \<Rightarrow> [] | Some t \<Rightarrow> t)"

definition texts_kept_and_flagged :: "ref list \<Rightarrow> heap \<Rightarrow> ref list \<Rightarrow> heap \<Rightarrow> bool" where
  \<comment> \<open>Claim C2 in its own words: the result has the texts of the input, one for one and in
      order, and a part of it is marked as thought iff its text starts with a narrative
      tag or holds the final-answer tag\<close>
  "texts_kept_and_flagged response_parts h out h' =
     (map (\<lambda>q. text (h' ! q)) out = map (\<lambda>r. text (h ! r)) response_parts
      \<and> list_all (\<lambda>q. (thought (h' ! q) = Some True)
                      = (starts_with_narrative_tag (h' ! q) \<or> has_final_answer (h' ! q))) out)"

section \<open>Strings: searching and splitting\<close>

lemma contains_sublist: "contains t sep = sublist sep t"
  by (induction t) (auto simp: sublist_Cons_right)

lemma contains_occurs: "contains t sep \<longleftrightarrow> (\<exists>k\<le>length t. prefix sep (drop k t))"
proof (induction t)
  case Nil
  then show ?case by auto
next
  case (Cons c cs)
  show ?case
  proof
    assume "contains (c # cs) sep"
    then consider "prefix sep (c # cs)" | "contains cs sep" by auto
    then show "\<exists>k\<le>length (c # cs). prefix sep (drop k (c # cs))"
    proof cases
      case 1
      then have "prefix sep (drop 0 (c # cs))" by simp
      then show ?thesis by blast
    next
      case 2
      with Cons obtain k where "k \<le> length cs" "prefix sep (drop k cs)" by blast
      then have "Suc k \<le> length (c # cs) \<and> prefix sep (drop (Suc k) (c # cs))" by simp
      then show ?thesis by blast
    qed
  next
    assume "\<exists>k\<le>length (c # cs). prefix sep (drop k (c # cs))"
    then obtain k where k: "k \<le> length (c # cs)" "prefix sep (drop k (c # cs))" by blast
    show "contains (c # cs) sep"
    proof (cases k)
      case 0
      with k show ?thesis by simp
    next
      case (Suc j)
      with k have "j \<le> length cs \<and> prefix sep (drop j cs)" by simp
      with Cons show ?thesis by auto
    qed
  qed
qed

lemma rfind_from_none:
  "rfind_from t sep n = - 1 \<longleftrightarrow> (\<forall>k\<le>n. \<not> prefix sep (drop k t))"
  by (induction n) (auto simp: le_Suc_eq)

lemma rfind_from_some:
  "rfind_from t sep n \<noteq> - 1 \<Longrightarrow>
     \<exists>i\<le>n. rfind_from t sep n = int i \<and> prefix sep (drop i t)
            \<and> (\<forall>k. i < k \<and> k \<le> n \<longrightarrow> \<not> prefix sep (drop k t))"
proof (induction n)
  case 0
  then show ?case by (auto split: if_splits)
next
  case (Suc n)
  show ?case
  proof (cases "prefix sep (drop (Suc n) t)")
    case True
    then show ?thesis by auto
  next
    case False
    with Suc.prems have "rfind_from t sep n \<noteq> - 1" by simp
    from Suc.IH [OF this] obtain i where i: "i \<le> n" "rfind_from t sep n = int i"
      "prefix sep (drop i t)" "\<forall>k. i < k \<and> k \<le> n \<longrightarrow> \<not> prefix sep (drop k t)" by blast
    have "\<forall>k. i < k \<and> k \<le> Suc n \<longrightarrow> \<not> prefix sep (drop k t)"
      using i(4) False by (auto simp: le_Suc_eq)
    with i False show ?thesis by auto
  qed
qed

lemma occurrence_bound:
  "sep \<noteq> [] \<Longrightarrow> prefix sep (drop k t) \<Longrightarrow> k + length sep \<le> length t"
proof -
  assume a: "sep \<noteq> []" "prefix sep (drop k t)"
  then have "length sep \<le> length (drop k t)" using prefix_length_le by blast
  moreover from a have "drop k t \<noteq> []" by auto
  ultimately show ?thesis by simp
qed

lemma rfind_last:
  assumes "sep \<noteq> []" and "contains t sep"
  shows "\<exists>i. rfind t sep = int i \<and> prefix sep (drop i t)
           \<and> (\<forall>k. prefix sep (drop k t) \<longrightarrow> k \<le> i)"
proof -
  from assms(2) have "rfind_from t sep (length t) \<noteq> - 1"
    by (simp add: rfind_from_none contains_occurs)
  from rfind_from_some [OF this] obtain i where i: "i \<le> length t"
    "rfind_from t sep (length t) = int i" "prefix sep (drop i t)"
    "\<forall>k. i < k \<and> k \<le> length t \<longrightarrow> \<not> prefix sep (drop k t)" by blast
  have "\<forall>k. prefix sep (drop k t) \<longrightarrow> k \<le> i"
  proof (intro allI impI)
    fix k assume k: "prefix sep (drop k t)"
    with assms(1) have "k \<le> length t" using occurrence_bound by fastforce
    with i(4) k show "k \<le> i" by (meson not_le_imp_less)
  qed
  with i show ?thesis by (auto simp: rfind_def)
qed

lemma split_at_last:
  assumes "sep \<noteq> []" and "contains t sep"
  shows "\<exists>i. prefix sep (drop i t) \<and> (\<forall>k. prefix sep (drop k t) \<longrightarrow> k \<le> i)
           \<and> split_by_last_pattern t sep = (take (i + length sep) t, drop (i + length sep) t)"
proof -
  from rfind_last [OF assms] obtain i where i: "rfind t sep = int i" "prefix sep (drop i t)"
    "\<forall>k. prefix sep (drop k t) \<longrightarrow> k \<le> i" by blast
  have "nat (int i + int (length sep)) = i + length sep" by simp
  with i show ?thesis by (auto simp: split_by_last_pattern_def Let_def nat_add_distrib)
qed

section \<open>One fragment: the text classification\<close>

lemma tag_nonempty: "FINAL_ANSWER_TAG \<noteq> []"
  by (simp add: FINAL_ANSWER_TAG_def)

lemma mark_fresh:
  "t \<noteq> [] \<Longrightarrow> mark_as_thought (length h) (h @ [new_text_part t])
     = h @ [(new_text_part t)\<lparr>thought := Some True\<rparr>]"
  by (simp add: mark_as_thought_def new_text_part_def truthy_def)

lemma handle_final:
  assumes "has_final_answer (h ! r)"
    and "split_by_last_pattern (the (text (h ! r))) FINAL_ANSWER_TAG = (hd', tl')"
    and "hd' \<noteq> []"
  shows "handle_non_function_call_parts r acc h =
           (acc @ length h # (if tl' = [] then [] else [Suc (length h)]),
            h @ (new_text_part hd')\<lparr>thought := Some True\<rparr>
              # (if tl' = [] then [] else [new_text_part tl']))"
  using assms
  by (simp add: handle_non_function_call_parts_def has_final_answer_def alloc_def mark_fresh)

lemma handle_plain:
  assumes "\<not> has_final_answer (h ! r)"
  shows "handle_non_function_call_parts r acc h =
           (acc @ [r],
            if starts_with_narrative_tag (h ! r) then h[r := (h ! r)\<lparr>thought := Some True\<rparr>]
            else h)"
  using assms
  by (auto simp: handle_non_function_call_parts_def has_final_answer_def
      starts_with_narrative_tag_def mark_as_thought_def truthy_def Let_def split: option.splits)

lemma take_occurrence:
  assumes "prefix sep (drop k t)" and "k \<le> i"
  shows "prefix sep (drop k (take (i + length sep) t))"
proof -
  from assms(1) obtain zs where zs: "drop k t = sep @ zs" by (auto simp: prefix_def)
  have "drop k (take (i + length sep) t) = take (i + length sep - k) (drop k t)"
    by (simp add: drop_take)
  also have "\<dots> = sep @ take (i - k) zs" using assms(2) zs by simp
  finally show ?thesis by simp
qed

lemma tail_empty_iff:
  assumes "sep \<noteq> []" and "prefix sep (drop i t)" and "\<forall>k. prefix sep (drop k t) \<longrightarrow> k \<le> i"
  shows "drop (i + length sep) t = [] \<longleftrightarrow> suffix sep t"
proof
  assume "drop (i + length sep) t = []"
  then have "length t \<le> i + length sep" by simp
  moreover from assms(1,2) have "i + length sep \<le> length t" by (rule occurrence_bound)
  ultimately have len: "length (drop i t) = length sep" by simp
  from assms(2) obtain zs where zs: "drop i t = sep @ zs" by (auto simp: prefix_def)
  then have "length (drop i t) = length sep + length zs" by (metis length_append)
  with len have "zs = []" by simp
  with zs have "drop i t = sep" by simp
  then show "suffix sep t" by (metis suffix_drop)
next
  assume "suffix sep t"
  then obtain ys where ys: "t = ys @ sep" by (auto simp: suffix_def)
  then have "prefix sep (drop (length ys) t)" by simp
  with assms(3) have "length ys \<le> i" by blast
  with ys show "drop (i + length sep) t = []" by simp
qed

lemma tail_free:
  assumes "sep \<noteq> []" and "\<forall>k. prefix sep (drop k t) \<longrightarrow> k \<le> i"
  shows "\<not> contains (drop (i + length sep) t) sep"
proof
  assume "contains (drop (i + length sep) t) sep"
  then obtain k where "prefix sep (drop k (drop (i + length sep) t))"
    by (auto simp: contains_occurs)
  then have "prefix sep (drop (k + (i + length sep)) t)" by simp
  with assms(2) have "k + (i + length sep) \<le> i" by blast
  with assms(1) show False by simp
qed

text \<open>
  Claim C1. A text that contains the final-answer tag is cut right behind the last place
  \<open>i\<close> where the tag starts. The head, everything up to and including that tag, is a
  new part marked as thought; every place where the tag starts in the text is a place
  where it starts in the head, so the head holds all earlier occurrences. The tail,
  everything behind the tag, holds no tag; it is a second new part with no thought flag,
  and it is left out exactly when the text ends with the tag.
\<close>

theorem final_answer_split:
  assumes "text (h ! r) = Some t" and "contains t FINAL_ANSWER_TAG"
  shows "\<exists>i head tail.
           prefix FINAL_ANSWER_TAG (drop i t)
         \<and> (\<forall>k. prefix FINAL_ANSWER_TAG (drop k t) \<longrightarrow> k \<le> i \<and> prefix FINAL_ANSWER_TAG (drop k head))
         \<and> head = take (i + length FINAL_ANSWER_TAG) t
         \<and> tail = drop (i + length FINAL_ANSWER_TAG) t
         \<and> suffix FINAL_ANSWER_TAG head
         \<and> \<not> contains tail FINAL_ANSWER_TAG
         \<and> (tail = [] \<longleftrightarrow> suffix FINAL_ANSWER_TAG t)
         \<and> handle_non_function_call_parts r preserved h =
             (preserved @ length h # (if tail = [] then [] else [Suc (length h)]),
              h @ \<lparr>text = Some head, function_call = None, thought = Some True\<rparr>
                # (if tail = [] then [] else [\<lparr>text = Some tail, function_call = None, thought = None\<rparr>]))"
proof -
  let ?T = FINAL_ANSWER_TAG
  from split_at_last [OF tag_nonempty assms(2)] obtain i where i: "prefix ?T (drop i t)"
    "\<forall>k. prefix ?T (drop k t) \<longrightarrow> k \<le> i"
    "split_by_last_pattern t ?T = (take (i + length ?T) t, drop (i + length ?T) t)" by blast
  define head where "head = take (i + length ?T) t"
  define tail where "tail = drop (i + length ?T) t"
  have bound: "i + length ?T \<le> length t" using tag_nonempty i(1) by (rule occurrence_bound)
  have occ: "\<forall>k. prefix ?T (drop k t) \<longrightarrow> k \<le> i \<and> prefix ?T (drop k head)"
    using i(2) take_occurrence unfolding head_def by blast
  have "drop i head = take (length ?T) (drop i t)"
    unfolding head_def by (simp add: drop_take)
  also have "\<dots> = ?T" using i(1) by (auto simp: prefix_def)
  finally have suf: "suffix ?T head" by (metis suffix_drop)
  then have ne: "head \<noteq> []" using tag_nonempty by (auto simp: suffix_def)
  have free: "\<not> contains tail ?T" unfolding tail_def using tag_nonempty i(2) by (rule tail_free)
  have emp: "tail = [] \<longleftrightarrow> suffix ?T t"
    unfolding tail_def using tag_nonempty i(1,2) by (rule tail_empty_iff)
  have hfa: "has_final_answer (h ! r)"
    using assms tag_nonempty by (auto simp: has_final_answer_def truthy_def contains_sublist)
  have "handle_non_function_call_parts r preserved h =
          (preserved @ length h # (if tail = [] then [] else [Suc (length h)]),
           h @ (new_text_part head)\<lparr>thought := Some True\<rparr>
             # (if tail = [] then [] else [new_text_part tail]))"
    using handle_final [OF hfa _ ne, of tail preserved] i(3) assms(1)
    by (simp add: head_def tail_def)
  then have "handle_non_function_call_parts r preserved h =
             (preserved @ length h # (if tail = [] then [] else [Suc (length h)]),
              h @ \<lparr>text = Some head, function_call = None, thought = Some True\<rparr>
                # (if tail = [] then [] else [\<lparr>text = Some tail, function_call = None, thought = None\<rparr>]))"
    by (simp add: new_text_part_def)
  with i(1) occ suf free emp head_def tail_def show ?thesis by blast
qed
theorem final_answer_split_witness:
  "text ([\<lparr>text = Some ''a/*FINAL_ANSWER*/b/*FINAL_ANSWER*/c'', function_call = None, thought = None\<rparr>] ! 0)
     = Some ''a/*FINAL_ANSWER*/b/*FINAL_ANSWER*/c''
   \<and> contains ''a/*FINAL_ANSWER*/b/*FINAL_ANSWER*/c'' FINAL_ANSWER_TAG
   \<and> handle_non_function_call_parts 0 []
         [\<lparr>text = Some ''a/*FINAL_ANSWER*/b/*FINAL_ANSWER*/c'', function_call = None, thought = None\<rparr>]
       = ([1, 2],
          [\<lparr>text = Some ''a/*FINAL_ANSWER*/b/*FINAL_ANSWER*/c'', function_call = None, thought = None\<rparr>,
           \<lparr>text = Some ''a/*FINAL_ANSWER*/b/*FINAL_ANSWER*/'', function_call = None, thought = Some True\<rparr>,
           \<lparr>text = Some ''c'', function_call = None, thought = None\<rparr>])
   \<and> (\<exists>i. prefix FINAL_ANSWER_TAG (drop i ''a/*FINAL_ANSWER*/b/*FINAL_ANSWER*/c'')
          \<and> suffix FINAL_ANSWER_TAG (take (i + length FINAL_ANSWER_TAG) ''a/*FINAL_ANSWER*/b/*FINAL_ANSWER*/c'')
          \<and> \<not> contains (drop (i + length FINAL_ANSWER_TAG) ''a/*FINAL_ANSWER*/b/*FINAL_ANSWER*/c'') FINAL_ANSWER_TAG)"
proof -
  let ?t = "''a/*FINAL_ANSWER*/b/*FINAL_ANSWER*/c''"
  let ?h = "[\<lparr>text = Some ?t, function_call = None, thought = None\<rparr>]"
  have a: "text (?h ! 0) = Some ?t" by simp
  have b: "contains ?t FINAL_ANSWER_TAG" by code_simp
  have c: "handle_non_function_call_parts 0 [] ?h
       = ([1, 2],
          [\<lparr>text = Some ?t, function_call = None, thought = None\<rparr>,
           \<lparr>text = Some ''a/*FINAL_ANSWER*/b/*FINAL_ANSWER*/'', function_call = None, thought = Some True\<rparr>,
           \<lparr>text = Some ''c'', function_call = None, thought = None\<rparr>])"
    by code_simp
  from final_answer_split [OF a b, of "[]"] have
    "\<exists>i. prefix FINAL_ANSWER_TAG (drop i ?t)
        \<and> suffix FINAL_ANSWER_TAG (take (i + length FINAL_ANSWER_TAG) ?t)
        \<and> \<not> contains (drop (i + length FINAL_ANSWER_TAG) ?t) FINAL_ANSWER_TAG"
    by blast
  with a b c show ?thesis by blast
qed

section \<open>The whole response\<close>

text \<open>
  Claim C4. The result is \<^verbatim>\<open>None\<close> for the empty list and for no other list: any
  non-empty list, also one of nameless function calls only, gives a list.
\<close>

theorem none_iff_empty:
  "process_planning_response callback_context [] h = (None, h)
   \<and> (fst (process_planning_response callback_context response_parts h) = None
        \<longleftrightarrow> response_parts = [])"
  by (simp add: process_planning_response_def split: prod.splits)

theorem none_iff_empty_witness:
  "fst (process_planning_response () [] []) = None
   \<and> fst (process_planning_response () [0]
        [\<lparr>text = None, function_call = Some \<lparr>name = Some []\<rparr>, thought = None\<rparr>]) = Some []"
proof -
  have "fst (process_planning_response () [0]
        [\<lparr>text = None, function_call = Some \<lparr>name = Some []\<rparr>, thought = None\<rparr>]) = Some []"
    by code_simp
  with none_iff_empty [of "()" "[]" "[]"] show ?thesis by simp
qed

section \<open>The store: what a run may change\<close>

lemma marks_only_refl: "marks_only rs h h"
  by (simp add: marks_only_def)

lemma marks_only_length: "marks_only rs h h' \<Longrightarrow> length h \<le> length h'"
  by (simp add: marks_only_def)

lemma marks_only_cases:
  assumes "marks_only rs h h'" and "q < length h"
  obtains "h' ! q = h ! q"
  | "q \<in> set rs" "function_call (h ! q) = None" "\<not> has_final_answer (h ! q)"
    "starts_with_narrative_tag (h ! q)" "h' ! q = (h ! q)\<lparr>thought := Some True\<rparr>"
proof -
  from assms have "h' ! q = h ! q \<or>
         (q \<in> set rs \<and> function_call (h ! q) = None \<and> \<not> has_final_answer (h ! q)
          \<and> starts_with_narrative_tag (h ! q) \<and> h' ! q = (h ! q)\<lparr>thought := Some True\<rparr>)"
    by (simp add: marks_only_def)
  then show thesis using that by fast
qed

lemma marks_only_text: "marks_only rs h h' \<Longrightarrow> q < length h \<Longrightarrow> text (h' ! q) = text (h ! q)"
  by (erule (1) marks_only_cases) simp_all

lemma marks_only_function_call:
  "marks_only rs h h' \<Longrightarrow> q < length h \<Longrightarrow> function_call (h' ! q) = function_call (h ! q)"
  by (erule (1) marks_only_cases) simp_all

lemma marks_only_has_final:
  "marks_only rs h h' \<Longrightarrow> q < length h \<Longrightarrow> has_final_answer (h' ! q) = has_final_answer (h ! q)"
  by (simp add: has_final_answer_def marks_only_text)

lemma marks_only_narrative:
  "marks_only rs h h' \<Longrightarrow> q < length h \<Longrightarrow>
     starts_with_narrative_tag (h' ! q) = starts_with_narrative_tag (h ! q)"
  by (simp add: starts_with_narrative_tag_def marks_only_text)

lemma marks_only_kept:
  "marks_only rs h h' \<Longrightarrow> q < length h \<Longrightarrow> is_kept_call (h' ! q) = is_kept_call (h ! q)"
  by (simp add: is_kept_call_def marks_only_function_call)

lemma marks_only_trans:
  assumes "marks_only rs h h1" and "marks_only rs h1 h2"
  shows "marks_only rs h h2"
  unfolding marks_only_def
proof (intro conjI allI impI)
  show "length h \<le> length h2" using assms by (meson marks_only_length order_trans)
next
  fix q assume q: "q < length h"
  then have q1: "q < length h1" using assms(1) by (meson marks_only_length less_le_trans)
  let ?G = "h2 ! q = h ! q \<or> (q \<in> set rs \<and> function_call (h ! q) = None
          \<and> \<not> has_final_answer (h ! q) \<and> starts_with_narrative_tag (h ! q)
          \<and> h2 ! q = (h ! q)\<lparr>thought := Some True\<rparr>)"
  from assms(1) q show ?G
  proof (cases rule: marks_only_cases)
    case 1
    from assms(2) q1 show ?G
      by (cases rule: marks_only_cases) (simp_all add: 1)
  next
    case 2
    have n: "starts_with_narrative_tag (h1 ! q) = starts_with_narrative_tag (h ! q)"
      "has_final_answer (h1 ! q) = has_final_answer (h ! q)"
      using assms(1) q by (simp_all add: marks_only_narrative marks_only_has_final)
    from assms(2) q1 show ?G
      by (cases rule: marks_only_cases) (simp_all add: 2)
  qed
qed

lemma split_head_nonempty:
  assumes "has_final_answer p" and "split_by_last_pattern (the (text p)) FINAL_ANSWER_TAG = (a, b)"
  shows "a \<noteq> []"
proof -
  from assms(1) have c: "contains (the (text p)) FINAL_ANSWER_TAG" by (simp add: has_final_answer_def)
  from split_at_last [OF tag_nonempty c] assms(2) obtain i where
    "a = take (i + length FINAL_ANSWER_TAG) (the (text p))"
    "prefix FINAL_ANSWER_TAG (drop i (the (text p)))" by auto
  moreover from this(2) have "i + length FINAL_ANSWER_TAG \<le> length (the (text p))"
    using tag_nonempty occurrence_bound by blast
  ultimately show ?thesis using tag_nonempty by auto
qed

lemma handle_final_shape:
  assumes "has_final_answer (h ! r)"
  shows "\<exists>a b. a \<noteq> [] \<and> split_by_last_pattern (the (text (h ! r))) FINAL_ANSWER_TAG = (a, b) \<and>
          handle_non_function_call_parts r acc h =
           (acc @ length h # (if b = [] then [] else [Suc (length h)]),
            h @ (new_text_part a)\<lparr>thought := Some True\<rparr> # (if b = [] then [] else [new_text_part b]))"
proof -
  obtain a b where ab: "split_by_last_pattern (the (text (h ! r))) FINAL_ANSWER_TAG = (a, b)"
    by fastforce
  from split_head_nonempty [OF assms ab] have "a \<noteq> []" .
  with handle_final [OF assms ab this] ab show ?thesis by blast
qed

lemma handle_marks_only:
  assumes "r < length h" and "r \<in> set rs" and "function_call (h ! r) = None"
    and "handle_non_function_call_parts r acc h = (acc', h')"
  shows "marks_only rs h h'"
proof (cases "has_final_answer (h ! r)")
  case True
  from handle_final_shape [OF True, of acc] assms(4) obtain ys where "h' = h @ ys" by auto
  then show ?thesis by (simp add: marks_only_def nth_append)
next
  case False
  with assms show ?thesis
    by (auto simp: handle_plain marks_only_def nth_list_update split: if_splits)
qed

lemma handle_emits:
  assumes "handle_non_function_call_parts r acc h = (acc', h')"
  shows "\<exists>new. acc' = acc @ new \<and>
           (\<forall>q\<in>set new. (q = r \<and> \<not> has_final_answer (h ! r)) \<or> (length h \<le> q \<and> q < length h'))"
proof (cases "has_final_answer (h ! r)")
  case True
  from handle_final_shape [OF True, of acc] assms show ?thesis by (auto split: if_splits)
next
  case False
  with assms show ?thesis by (auto simp: handle_plain)
qed

section \<open>The first loop\<close>

declare scan_loop.simps [simp del]
declare lookahead_loop.simps [simp del]

lemma scan_done: "\<not> i < length parts \<Longrightarrow> scan_loop parts i acc h = (acc, - 1, h)"
  by (simp add: scan_loop.simps [of parts i acc h])

lemma scan_skip:
  "i < length parts \<Longrightarrow> function_call (h ! (parts ! i)) = Some fc \<Longrightarrow> \<not> truthy (name fc) \<Longrightarrow>
     scan_loop parts i acc h = scan_loop parts (Suc i) acc h"
  by (simp add: scan_loop.simps [of parts i acc h])

lemma scan_break:
  "i < length parts \<Longrightarrow> function_call (h ! (parts ! i)) = Some fc \<Longrightarrow> truthy (name fc) \<Longrightarrow>
     scan_loop parts i acc h = (acc @ [parts ! i], int i, h)"
  by (simp add: scan_loop.simps [of parts i acc h])

lemma scan_text:
  "i < length parts \<Longrightarrow> function_call (h ! (parts ! i)) = None \<Longrightarrow>
   handle_non_function_call_parts (parts ! i) acc h = (a1, h1) \<Longrightarrow>
     scan_loop parts i acc h = scan_loop parts (Suc i) a1 h1"
  by (simp add: scan_loop.simps [of parts i acc h])

lemma scan_induct [case_names at_end nameless named plain]:
  assumes "\<And>parts i acc h. \<not> i < length parts \<Longrightarrow> P parts i acc h"
    and "\<And>parts i acc h fc. i < length parts \<Longrightarrow> function_call (h ! (parts ! i)) = Some fc \<Longrightarrow>
           \<not> truthy (name fc) \<Longrightarrow> P parts (Suc i) acc h \<Longrightarrow> P parts i acc h"
    and "\<And>parts i acc h fc. i < length parts \<Longrightarrow> function_call (h ! (parts ! i)) = Some fc \<Longrightarrow>
           truthy (name fc) \<Longrightarrow> P parts i acc h"
    and "\<And>parts i acc h a1 h1. i < length parts \<Longrightarrow> function_call (h ! (parts ! i)) = None \<Longrightarrow>
           handle_non_function_call_parts (parts ! i) acc h = (a1, h1) \<Longrightarrow>
           P parts (Suc i) a1 h1 \<Longrightarrow> P parts i acc h"
  shows "P parts i acc h"
proof (induction parts i acc h rule: scan_loop.induct)
  case (1 parts i acc h)
  show ?case
  proof (cases "i < length parts")
    case False
    then show ?thesis by (rule assms(1))
  next
    case True
    show ?thesis
    proof (cases "function_call (h ! (parts ! i))")
      case None
      obtain a1 h1 where hd: "handle_non_function_call_parts (parts ! i) acc h = (a1, h1)"
        by fastforce
      from "1.IH"(1) [OF True None hd [symmetric]] have "P parts (Suc i) a1 h1" .
      with True None hd show ?thesis by (rule assms(4))
    next
      case (Some fc)
      show ?thesis
      proof (cases "truthy (name fc)")
        case True': True
        from True Some True' show ?thesis by (rule assms(3))
      next
        case False
        from "1.IH"(2) [OF True Some False] have "P parts (Suc i) acc h" .
        with True Some False show ?thesis by (rule assms(2))
      qed
    qed
  qed
qed

lemma valid_refs_nth: "valid_refs h parts \<Longrightarrow> i < length parts \<Longrightarrow> parts ! i < length h"
  by (simp add: valid_refs_def list_all_length)

lemma valid_refs_mem: "valid_refs h parts \<Longrightarrow> r \<in> set parts \<Longrightarrow> r < length h"
  by (simp add: valid_refs_def list_all_iff)

lemma valid_refs_mono: "valid_refs h parts \<Longrightarrow> length h \<le> length h' \<Longrightarrow> valid_refs h' parts"
  by (auto simp: valid_refs_def list_all_iff)

lemma scan_marks_only:
  "valid_refs h parts \<Longrightarrow> scan_loop parts i acc h = (acc', idx, h') \<Longrightarrow> marks_only parts h h'"
proof (induction parts i acc h rule: scan_induct)
  case (at_end parts i acc h)
  then show ?case by (simp add: scan_done marks_only_refl)
next
  case (nameless parts i acc h fc)
  then show ?case by (simp add: scan_skip)
next
  case (named parts i acc h fc)
  then show ?case by (simp add: scan_break marks_only_refl)
next
  case (plain parts i acc h a1 h1)
  have r: "parts ! i < length h" "parts ! i \<in> set parts"
    using plain.hyps(1) plain.prems(1) by (simp_all add: valid_refs_nth)
  from handle_marks_only [OF r plain.hyps(2,3)] have m1: "marks_only parts h h1" .
  then have "valid_refs h1 parts"
    using plain.prems(1) valid_refs_mono marks_only_length by blast
  moreover have "scan_loop parts (Suc i) a1 h1 = (acc', idx, h')"
    using plain.prems(2) plain.hyps by (simp add: scan_text)
  ultimately have "marks_only parts h1 h'" by (rule plain.IH)
  with m1 show ?case by (rule marks_only_trans)
qed

lemma scan_emits:
  "valid_refs h parts \<Longrightarrow> scan_loop parts i acc h = (acc', idx, h') \<Longrightarrow>
     \<exists>new. acc' = acc @ new \<and>
       (\<forall>q\<in>set new. (q \<in> set parts \<and> \<not> (function_call (h ! q) = None \<and> has_final_answer (h ! q)))
                    \<or> (length h \<le> q \<and> q < length h'))"
proof (induction parts i acc h rule: scan_induct)
  case (at_end parts i acc h)
  then show ?case by (simp add: scan_done)
next
  case (nameless parts i acc h fc)
  then show ?case by (simp add: scan_skip)
next
  case (named parts i acc h fc)
  then show ?case by (auto simp: scan_break)
next
  case (plain parts i acc h a1 h1)
  let ?r = "parts ! i"
  have r: "?r < length h" "?r \<in> set parts"
    using plain.hyps(1) plain.prems(1) by (simp_all add: valid_refs_nth)
  from handle_marks_only [OF r plain.hyps(2,3)] have m1: "marks_only parts h h1" .
  then have len1: "length h \<le> length h1" by (rule marks_only_length)
  then have v1: "valid_refs h1 parts" using plain.prems(1) valid_refs_mono by blast
  have s1: "scan_loop parts (Suc i) a1 h1 = (acc', idx, h')"
    using plain.prems(2) plain.hyps by (simp add: scan_text)
  from scan_marks_only [OF v1 s1] have len2: "length h1 \<le> length h'" by (rule marks_only_length)
  from plain.IH [OF v1 s1] obtain new2 where new2: "acc' = a1 @ new2"
    "\<forall>q\<in>set new2. (q \<in> set parts \<and> \<not> (function_call (h1 ! q) = None \<and> has_final_answer (h1 ! q)))
                    \<or> (length h1 \<le> q \<and> q < length h')" by blast
  from handle_emits [OF plain.hyps(3)] obtain new1 where new1: "a1 = acc @ new1"
    "\<forall>q\<in>set new1. (q = ?r \<and> \<not> has_final_answer (h ! ?r)) \<or> (length h \<le> q \<and> q < length h1)"
    by blast
  let ?ok = "\<lambda>q. (q \<in> set parts \<and> \<not> (function_call (h ! q) = None \<and> has_final_answer (h ! q)))
                    \<or> (length h \<le> q \<and> q < length h')"
  have "?ok q" if "q \<in> set new1" for q
    using new1(2) that r len2 by fastforce
  moreover have "?ok q" if q: "q \<in> set new2" for q
  proof -
    from new2(2) q consider
      "q \<in> set parts" "\<not> (function_call (h1 ! q) = None \<and> has_final_answer (h1 ! q))"
      | "length h1 \<le> q" "q < length h'" by blast
    then show ?thesis
    proof cases
      case 1
      from 1(1) plain.prems(1) have "q < length h" by (simp add: valid_refs_mem)
      with m1 have "function_call (h1 ! q) = function_call (h ! q)"
        "has_final_answer (h1 ! q) = has_final_answer (h ! q)"
        by (simp_all add: marks_only_function_call marks_only_has_final)
      with 1 show ?thesis by simp
    next
      case 2
      with len1 show ?thesis by simp
    qed
  qed
  ultimately have "\<forall>q\<in>set (new1 @ new2). ?ok q" by auto
  moreover have "acc' = acc @ (new1 @ new2)" using new1(1) new2(1) by simp
  ultimately show ?case by blast
qed

lemma scan_index:
  "valid_refs h parts \<Longrightarrow> scan_loop parts i acc h = (acc', idx, h') \<Longrightarrow>
     (idx = - 1 \<and> (\<forall>k. i \<le> k \<and> k < length parts \<longrightarrow> \<not> is_kept_call (h ! (parts ! k))))
   \<or> (\<exists>k. idx = int k \<and> i \<le> k \<and> k < length parts \<and> is_kept_call (h ! (parts ! k))
          \<and> (\<forall>m. i \<le> m \<and> m < k \<longrightarrow> \<not> is_kept_call (h ! (parts ! m)))
          \<and> acc' \<noteq> [] \<and> last acc' = parts ! k)"
proof (induction parts i acc h rule: scan_induct)
  case (at_end parts i acc h)
  then show ?case by (auto simp: scan_done)
next
  case (named parts i acc h fc)
  then have "idx = int i \<and> i \<le> i \<and> i < length parts \<and> is_kept_call (h ! (parts ! i))
          \<and> (\<forall>m. i \<le> m \<and> m < i \<longrightarrow> \<not> is_kept_call (h ! (parts ! m)))
          \<and> acc' \<noteq> [] \<and> last acc' = parts ! i"
    by (auto simp: scan_break is_kept_call_def)
  then show ?case by blast
next
  case (nameless parts i acc h fc)
  have here: "\<not> is_kept_call (h ! (parts ! i))"
    using nameless.hyps by (simp add: is_kept_call_def)
  have s1: "scan_loop parts (Suc i) acc h = (acc', idx, h')"
    using nameless.prems(2) nameless.hyps by (simp add: scan_skip)
  have ext: "(\<forall>k. Suc i \<le> k \<and> k < n \<longrightarrow> \<not> is_kept_call (h ! (parts ! k)))
      \<Longrightarrow> (\<forall>k. i \<le> k \<and> k < n \<longrightarrow> \<not> is_kept_call (h ! (parts ! k)))" for n
    using here by (metis Suc_leI le_neq_implies_less)
  from nameless.IH [OF nameless.prems(1) s1] show ?case
  proof
    assume "idx = - 1 \<and> (\<forall>k. Suc i \<le> k \<and> k < length parts \<longrightarrow> \<not> is_kept_call (h ! (parts ! k)))"
    with ext show ?thesis by blast
  next
    assume "\<exists>k. idx = int k \<and> Suc i \<le> k \<and> k < length parts \<and> is_kept_call (h ! (parts ! k))
          \<and> (\<forall>m. Suc i \<le> m \<and> m < k \<longrightarrow> \<not> is_kept_call (h ! (parts ! m)))
          \<and> acc' \<noteq> [] \<and> last acc' = parts ! k"
    then obtain k where k: "idx = int k" "Suc i \<le> k" "k < length parts"
      "is_kept_call (h ! (parts ! k))"
      "\<forall>m. Suc i \<le> m \<and> m < k \<longrightarrow> \<not> is_kept_call (h ! (parts ! m))"
      "acc' \<noteq> []" "last acc' = parts ! k" by blast
    from ext [OF k(5)] have "\<forall>m. i \<le> m \<and> m < k \<longrightarrow> \<not> is_kept_call (h ! (parts ! m))" .
    moreover from k(2) have "i \<le> k" by simp
    ultimately show ?thesis using k by blast
  qed
next
  case (plain parts i acc h a1 h1)
  let ?r = "parts ! i"
  have r: "?r < length h" "?r \<in> set parts"
    using plain.hyps(1) plain.prems(1) by (simp_all add: valid_refs_nth)
  have here: "\<not> is_kept_call (h ! ?r)" using plain.hyps(2) by (simp add: is_kept_call_def)
  from handle_marks_only [OF r plain.hyps(2,3)] have m1: "marks_only parts h h1" .
  then have v1: "valid_refs h1 parts"
    using plain.prems(1) valid_refs_mono marks_only_length by blast
  have s1: "scan_loop parts (Suc i) a1 h1 = (acc', idx, h')"
    using plain.prems(2) plain.hyps by (simp add: scan_text)
  have same: "is_kept_call (h1 ! (parts ! k)) = is_kept_call (h ! (parts ! k))"
    if "k < length parts" for k
    using m1 that plain.prems(1) by (simp add: marks_only_kept valid_refs_nth)
  have ext: "(\<forall>k. Suc i \<le> k \<and> k < n \<longrightarrow> \<not> is_kept_call (h ! (parts ! k)))
      \<Longrightarrow> (\<forall>k. i \<le> k \<and> k < n \<longrightarrow> \<not> is_kept_call (h ! (parts ! k)))" for n
    using here by (metis Suc_leI le_neq_implies_less)
  from plain.IH [OF v1 s1] show ?case
  proof
    assume a: "idx = - 1 \<and> (\<forall>k. Suc i \<le> k \<and> k < length parts \<longrightarrow> \<not> is_kept_call (h1 ! (parts ! k)))"
    then have "\<forall>k. Suc i \<le> k \<and> k < length parts \<longrightarrow> \<not> is_kept_call (h ! (parts ! k))"
      using same by blast
    from ext [OF this] a show ?thesis by blast
  next
    assume "\<exists>k. idx = int k \<and> Suc i \<le> k \<and> k < length parts \<and> is_kept_call (h1 ! (parts ! k))
          \<and> (\<forall>m. Suc i \<le> m \<and> m < k \<longrightarrow> \<not> is_kept_call (h1 ! (parts ! m)))
          \<and> acc' \<noteq> [] \<and> last acc' = parts ! k"
    then obtain k where k: "idx = int k" "Suc i \<le> k" "k < length parts"
      "is_kept_call (h1 ! (parts ! k))"
      "\<forall>m. Suc i \<le> m \<and> m < k \<longrightarrow> \<not> is_kept_call (h1 ! (parts ! m))"
      "acc' \<noteq> []" "last acc' = parts ! k" by blast
    have "\<forall>m. Suc i \<le> m \<and> m < k \<longrightarrow> \<not> is_kept_call (h ! (parts ! m))"
      using k(3,5) same by (metis less_trans)
    from ext [OF this] have "\<forall>m. i \<le> m \<and> m < k \<longrightarrow> \<not> is_kept_call (h ! (parts ! m))" .
    moreover from k(2) have "i \<le> k" by simp
    moreover from k(3,4) same have "is_kept_call (h ! (parts ! k))" by simp
    ultimately show ?thesis using k by blast
  qed
qed

lemma lookahead_takeWhile:
  "lookahead_loop parts j acc h = acc @ takeWhile (\<lambda>r. is_function_call (h ! r)) (drop j parts)"
proof (induction parts j acc h rule: lookahead_loop.induct)
  case (1 parts j acc h)
  show ?case
  proof (cases "j < length parts")
    case False
    then show ?thesis by (simp add: lookahead_loop.simps [of parts j acc h])
  next
    case True
    then have d: "drop j parts = parts ! j # drop (Suc j) parts" by (simp add: Cons_nth_drop_Suc)
    show ?thesis
    proof (cases "function_call (h ! (parts ! j)) \<noteq> None")
      case False
      with True d show ?thesis
        by (simp add: lookahead_loop.simps [of parts j acc h] is_function_call_def)
    next
      case yes: True
      from "1.IH" [OF True yes] True yes d show ?thesis
        by (simp add: lookahead_loop.simps [of parts j acc h] is_function_call_def)
    qed
  qed
qed

section \<open>The second loop\<close>

lemma first_kept_unique:
  assumes "is_kept_call (h ! (parts ! k))" "\<forall>m<k. \<not> is_kept_call (h ! (parts ! m))"
    and "is_kept_call (h ! (parts ! j))" "\<forall>m<j. \<not> is_kept_call (h ! (parts ! m))"
  shows "k = (j::nat)"
  using assms by (meson linorder_neqE_nat)

text \<open>
  Claim C3, as amended. After the first loop \<^verbatim>\<open>first_fc_part_index\<close> is the position of
  the first function call with a name, or \<open>-1\<close> if there is none. The second loop runs
  when it is greater than \<open>0\<close>, that is exactly when the first function call with a name
  stands at a position \<open>k > 0\<close> of the list: something stands before it, be it a text or
  a function call without a name.
  When it runs, it adds the function calls that follow position \<open>k\<close>, named or not, up to
  the first part that is no function call; that part and all behind it are left out.
\<close>

theorem lookahead_condition:
  assumes "valid_refs h response_parts" and "response_parts \<noteq> []"
  shows "\<exists>preserved idx h'.
           scan_loop response_parts 0 [] h = (preserved, idx, h')
         \<and> first_fc_part_index response_parts h = idx
         \<and> ((idx = - 1 \<and> (\<forall>k<length response_parts. \<not> is_kept_call (h ! (response_parts ! k))))
            \<or> (\<exists>k<length response_parts. idx = int k
                  \<and> is_kept_call (h ! (response_parts ! k))
                  \<and> (\<forall>m<k. \<not> is_kept_call (h ! (response_parts ! m)))))
         \<and> (0 < idx \<longleftrightarrow>
              (\<exists>k. 0 < k \<and> k < length response_parts
                  \<and> is_kept_call (h ! (response_parts ! k))
                  \<and> (\<forall>m<k. \<not> is_kept_call (h ! (response_parts ! m)))))
         \<and> process_planning_response callback_context response_parts h =
             (Some (preserved @
                (if 0 < idx
                 then takeWhile (\<lambda>r. is_function_call (h ! r)) (drop (nat idx + 1) response_parts)
                 else [])), h')"
proof -
  obtain preserved idx h' where s: "scan_loop response_parts 0 [] h = (preserved, idx, h')"
    by (metis prod_cases3)
  have fi: "first_fc_part_index response_parts h = idx" by (simp add: first_fc_part_index_def s)
  have pos: "(idx = - 1 \<and> (\<forall>k<length response_parts. \<not> is_kept_call (h ! (response_parts ! k))))
            \<or> (\<exists>k<length response_parts. idx = int k
                  \<and> is_kept_call (h ! (response_parts ! k))
                  \<and> (\<forall>m<k. \<not> is_kept_call (h ! (response_parts ! m))))"
    using scan_index [OF assms(1) s] by auto
  have iff: "0 < idx \<longleftrightarrow>
              (\<exists>k. 0 < k \<and> k < length response_parts
                  \<and> is_kept_call (h ! (response_parts ! k))
                  \<and> (\<forall>m<k. \<not> is_kept_call (h ! (response_parts ! m))))"
  proof
    assume "0 < idx"
    with pos show "\<exists>k. 0 < k \<and> k < length response_parts
                  \<and> is_kept_call (h ! (response_parts ! k))
                  \<and> (\<forall>m<k. \<not> is_kept_call (h ! (response_parts ! m)))"
      by auto
  next
    assume "\<exists>k. 0 < k \<and> k < length response_parts
                  \<and> is_kept_call (h ! (response_parts ! k))
                  \<and> (\<forall>m<k. \<not> is_kept_call (h ! (response_parts ! m)))"
    then obtain k where k: "0 < k" "k < length response_parts"
      "is_kept_call (h ! (response_parts ! k))"
      "\<forall>m<k. \<not> is_kept_call (h ! (response_parts ! m))" by blast
    from pos k(2,3) obtain j where j: "idx = int j" "is_kept_call (h ! (response_parts ! j))"
      "\<forall>m<j. \<not> is_kept_call (h ! (response_parts ! m))" by blast
    from first_kept_unique [OF k(3,4) j(2,3)] have "k = j" .
    with k(1) j(1) show "0 < idx" by simp
  qed
  from scan_marks_only [OF assms(1) s] have m: "marks_only response_parts h h'" .
  have "takeWhile (\<lambda>r. is_function_call (h' ! r)) (drop n response_parts)
      = takeWhile (\<lambda>r. is_function_call (h ! r)) (drop n response_parts)" for n
  proof (rule takeWhile_cong [OF refl])
    fix r assume "r \<in> set (drop n response_parts)"
    then have "r \<in> set response_parts" by (rule in_set_dropD)
    with assms(1) have "r < length h" by (rule valid_refs_mem)
    with m show "is_function_call (h' ! r) = is_function_call (h ! r)"
      by (simp add: is_function_call_def marks_only_function_call)
  qed
  then have "process_planning_response callback_context response_parts h =
             (Some (preserved @
                (if 0 < idx
                 then takeWhile (\<lambda>r. is_function_call (h ! r)) (drop (nat idx + 1) response_parts)
                 else [])), h')"
    using assms(2) s
    by (simp add: process_planning_response_def lookahead_takeWhile nat_add_distrib)
  with s fi pos iff show ?thesis by blast
qed

theorem lookahead_condition_witness:
  "valid_refs [call_part [], call_part ''search'', call_part ''lookup'', new_text_part ''more''] [0, 1, 2, 3]
   \<and> [0, 1, 2, 3] \<noteq> ([] :: ref list)
   \<and> first_fc_part_index [0, 1, 2, 3]
        [call_part [], call_part ''search'', call_part ''lookup'', new_text_part ''more''] = 1
   \<and> process_planning_response () [0, 1, 2, 3]
        [call_part [], call_part ''search'', call_part ''lookup'', new_text_part ''more'']
      = (Some [1, 2], [call_part [], call_part ''search'', call_part ''lookup'', new_text_part ''more''])
   \<and> (\<exists>preserved idx h'.
         scan_loop [0, 1, 2, 3] 0 []
           [call_part [], call_part ''search'', call_part ''lookup'', new_text_part ''more'']
           = (preserved, idx, h')
         \<and> process_planning_response () [0, 1, 2, 3]
             [call_part [], call_part ''search'', call_part ''lookup'', new_text_part ''more'']
           = (Some (preserved @
                (if 0 < idx
                 then takeWhile (\<lambda>r. is_function_call
                        ([call_part [], call_part ''search'', call_part ''lookup'', new_text_part ''more''] ! r))
                        (drop (nat idx + 1) [0, 1, 2, 3])
                 else [])), h'))"
proof -
  let ?h = "[call_part [], call_part ''search'', call_part ''lookup'', new_text_part ''more'']"
  let ?ps = "[0, 1, 2, 3] :: ref list"
  have a: "valid_refs ?h ?ps" by (simp add: valid_refs_def)
  have b: "?ps \<noteq> []" by simp
  have c: "first_fc_part_index ?ps ?h = 1" by code_simp
  have d: "process_planning_response () ?ps ?h = (Some [1, 2], ?h)" by code_simp
  from lookahead_condition [OF a b, of "()"] have
    "\<exists>preserved idx h'.
         scan_loop ?ps 0 [] ?h = (preserved, idx, h')
         \<and> process_planning_response () ?ps ?h
           = (Some (preserved @
                (if 0 < idx
                 then takeWhile (\<lambda>r. is_function_call (?h ! r)) (drop (nat idx + 1) ?ps)
                 else [])), h')"
    by blast
  with a b c d show ?thesis by blast
qed

text \<open>
  Claim C3 as stated fails: in \<^verbatim>\<open>[call(''), call('search'), call('lookup')]\<close> no part
  that is not a function call stands before \<^verbatim>\<open>search\<close>, yet the index is \<open>1\<close>, the second
  loop runs and \<^verbatim>\<open>lookup\<close> is kept. Without the nameless call in front the index is
  \<open>0\<close> and \<^verbatim>\<open>lookup\<close> is lost.
\<close>

theorem lookahead_counterexample:
  "0 < first_fc_part_index [0, 1, 2] [call_part [], call_part ''search'', call_part ''lookup'']
   \<and> \<not> (\<exists>m<1. \<not> is_function_call
            ([call_part [], call_part ''search'', call_part ''lookup''] ! ([0, 1, 2] ! m)))
   \<and> process_planning_response () [0, 1, 2] [call_part [], call_part ''search'', call_part ''lookup'']
       = (Some [1, 2], [call_part [], call_part ''search'', call_part ''lookup''])
   \<and> process_planning_response () [0, 1] [call_part ''search'', call_part ''lookup'']
       = (Some [0], [call_part ''search'', call_part ''lookup''])"
proof -
  let ?h = "[call_part [], call_part ''search'', call_part ''lookup'']"
  have "first_fc_part_index [0, 1, 2] ?h = 1" by code_simp
  then have a: "0 < first_fc_part_index [0, 1, 2] ?h" by simp
  have b: "\<not> (\<exists>m<1. \<not> is_function_call (?h ! ([0, 1, 2] ! m)))"
    by (simp add: is_function_call_def call_part_def)
  have c: "process_planning_response () [0, 1, 2] ?h = (Some [1, 2], ?h)" by code_simp
  have d: "process_planning_response () [0, 1] [call_part ''search'', call_part ''lookup'']
       = (Some [0], [call_part ''search'', call_part ''lookup''])" by code_simp
  from a b c d show ?thesis by blast
qed

text \<open>
  Claim C5. The first loop skips a function call without a name, the second loop does not
  look at the name: in \<^verbatim>\<open>[text('plan'), call('search'), call('')]\<close> the nameless call
  is the third part of the result.
\<close>

theorem nameless_call_in_lookahead:
  "process_planning_response () [0, 1, 2] [new_text_part ''plan'', call_part ''search'', call_part []]
     = (Some [0, 1, 2], [new_text_part ''plan'', call_part ''search'', call_part []])
   \<and> \<not> is_kept_call ([new_text_part ''plan'', call_part ''search'', call_part []] ! 2)"
  by code_simp

section \<open>What a run changes and what it makes\<close>

lemma has_final_answer_iff:
  "has_final_answer p \<longleftrightarrow> (\<exists>t. text p = Some t \<and> contains t FINAL_ANSWER_TAG)"
proof -
  have "\<not> contains [] FINAL_ANSWER_TAG" using tag_nonempty by simp
  then show ?thesis
    by (cases "text p") (auto simp: has_final_answer_def truthy_def)
qed

lemma handle_final_heap:
  assumes "has_final_answer (h ! r)" and "handle_non_function_call_parts r acc h = (a1, h1)"
  shows "h1 = h @ split_parts (h ! r)"
    and "a1 = acc @ [length h..<length h1]"
proof -
  from handle_final_shape [OF assms(1), of acc] assms(2) obtain a b where
    ab: "split_by_last_pattern (the (text (h ! r))) FINAL_ANSWER_TAG = (a, b)"
    "a1 = acc @ length h # (if b = [] then [] else [Suc (length h)])"
    "h1 = h @ (new_text_part a)\<lparr>thought := Some True\<rparr> # (if b = [] then [] else [new_text_part b])"
    by auto
  from ab(1,3) show "h1 = h @ split_parts (h ! r)" by (simp add: split_parts_def)
  from ab(2,3) show "a1 = acc @ [length h..<length h1]" by (simp add: upt_rec)
qed

lemma handle_changed:
  assumes "handle_non_function_call_parts r acc h = (a1, h1)" and "q < length h"
    and "h1 ! q \<noteq> h ! q"
  shows "q = r \<and> \<not> has_final_answer (h ! r) \<and> a1 = acc @ [r]"
proof (cases "has_final_answer (h ! r)")
  case True
  from handle_final_heap(1) [OF True assms(1)] assms(2,3) show ?thesis
    by (simp add: nth_append)
next
  case False
  with assms(1) have a: "a1 = acc @ [r]"
    and b: "h1 = h \<or> h1 = h[r := (h ! r)\<lparr>thought := Some True\<rparr>]"
    by (auto simp: handle_plain split: if_splits)
  from b assms(3) have "q = r" by (metis nth_list_update_neq)
  with a False show ?thesis by simp
qed

lemma split_parts_text: "text p = text p' \<Longrightarrow> split_parts p = split_parts p'"
  by (simp add: split_parts_def)

lemma scan_changed:
  "valid_refs h parts \<Longrightarrow> scan_loop parts i acc h = (acc', idx, h') \<Longrightarrow>
     \<exists>new. acc' = acc @ new \<and> (\<forall>q<length h. h' ! q \<noteq> h ! q \<longrightarrow> q \<in> set new)"
proof (induction parts i acc h rule: scan_induct)
  case (at_end parts i acc h)
  then show ?case by (simp add: scan_done)
next
  case (nameless parts i acc h fc)
  then show ?case by (simp add: scan_skip)
next
  case (named parts i acc h fc)
  then show ?case by (auto simp: scan_break)
next
  case (plain parts i acc h a1 h1)
  let ?r = "parts ! i"
  have r: "?r < length h" "?r \<in> set parts"
    using plain.hyps(1) plain.prems(1) by (simp_all add: valid_refs_nth)
  from handle_marks_only [OF r plain.hyps(2,3)] have m1: "marks_only parts h h1" .
  then have len1: "length h \<le> length h1" by (rule marks_only_length)
  then have v1: "valid_refs h1 parts" using plain.prems(1) valid_refs_mono by blast
  have s1: "scan_loop parts (Suc i) a1 h1 = (acc', idx, h')"
    using plain.prems(2) plain.hyps by (simp add: scan_text)
  from plain.IH [OF v1 s1] obtain new2 where new2: "acc' = a1 @ new2"
    "\<forall>q<length h1. h' ! q \<noteq> h1 ! q \<longrightarrow> q \<in> set new2" by blast
  from handle_emits [OF plain.hyps(3)] obtain new1 where new1: "a1 = acc @ new1" by blast
  have "q \<in> set (new1 @ new2)" if q: "q < length h" "h' ! q \<noteq> h ! q" for q
  proof (cases "h1 ! q = h ! q")
    case True
    with q len1 new2(2) show ?thesis by simp
  next
    case False
    from handle_changed [OF plain.hyps(3) q(1) False] new1 show ?thesis by simp
  qed
  moreover have "acc' = acc @ (new1 @ new2)" using new1 new2(1) by simp
  ultimately show ?case by blast
qed

lemma scan_fresh:
  "valid_refs h parts \<Longrightarrow> scan_loop parts i acc h = (acc', idx, h') \<Longrightarrow>
     length h \<le> q \<Longrightarrow> q < length h' \<Longrightarrow>
     \<exists>r\<in>set parts. function_call (h ! r) = None \<and> has_final_answer (h ! r)
        \<and> h' ! q \<in> set (split_parts (h ! r))"
proof (induction parts i acc h rule: scan_induct)
  case (at_end parts i acc h)
  then show ?case by (simp add: scan_done)
next
  case (nameless parts i acc h fc)
  then show ?case by (simp add: scan_skip)
next
  case (named parts i acc h fc)
  then show ?case by (simp add: scan_break)
next
  case (plain parts i acc h a1 h1)
  let ?r = "parts ! i"
  have r: "?r < length h" "?r \<in> set parts"
    using plain.hyps(1) plain.prems(1) by (simp_all add: valid_refs_nth)
  from handle_marks_only [OF r plain.hyps(2,3)] have m1: "marks_only parts h h1" .
  then have len1: "length h \<le> length h1" by (rule marks_only_length)
  then have v1: "valid_refs h1 parts" using plain.prems(1) valid_refs_mono by blast
  have s1: "scan_loop parts (Suc i) a1 h1 = (acc', idx, h')"
    using plain.prems(2) plain.hyps by (simp add: scan_text)
  from scan_marks_only [OF v1 s1] have m2: "marks_only parts h1 h'" .
  show ?case
  proof (cases "q < length h1")
    case True
    have notin: "q \<notin> set parts" using plain.prems(1,3) valid_refs_mem by fastforce
    from m2 True have same: "h' ! q = h1 ! q"
      by (cases rule: marks_only_cases) (simp_all add: notin)
    have fin: "has_final_answer (h ! ?r)"
    proof (rule ccontr)
      assume "\<not> has_final_answer (h ! ?r)"
      with plain.hyps(3) have "length h1 = length h" by (auto simp: handle_plain split: if_splits)
      with True plain.prems(3) show False by simp
    qed
    from handle_final_heap(1) [OF fin plain.hyps(3)] have "h1 = h @ split_parts (h ! ?r)" .
    with True plain.prems(3) have "h1 ! q \<in> set (split_parts (h ! ?r))"
      by (simp add: nth_append)
    with same r(2) plain.hyps(2) fin show ?thesis by auto
  next
    case False
    then have "length h1 \<le> q" by simp
    from plain.IH [OF v1 s1 this plain.prems(4)] obtain r' where r': "r' \<in> set parts"
      "function_call (h1 ! r') = None" "has_final_answer (h1 ! r')"
      "h' ! q \<in> set (split_parts (h1 ! r'))" by blast
    from r'(1) plain.prems(1) have lt: "r' < length h" by (simp add: valid_refs_mem)
    from m1 lt have "text (h1 ! r') = text (h ! r')" by (rule marks_only_text)
    then have "split_parts (h1 ! r') = split_parts (h ! r')" by (rule split_parts_text)
    with r'(4) have c: "h' ! q \<in> set (split_parts (h ! r'))" by simp
    from m1 lt r'(2) have a: "function_call (h ! r') = None"
      by (simp add: marks_only_function_call)
    from m1 lt r'(3) have b: "has_final_answer (h ! r')"
      by (simp add: marks_only_has_final)
    from r'(1) a b c show ?thesis by blast
  qed
qed

lemma process_shape:
  assumes "valid_refs h parts" and "process_planning_response ctx parts h = (Some out, h')"
  obtains preserved idx extra where
    "scan_loop parts 0 [] h = (preserved, idx, h')" "out = preserved @ extra"
    "\<forall>r\<in>set extra. r \<in> set parts \<and> function_call (h ! r) \<noteq> None"
proof -
  from assms(2) have ne: "parts \<noteq> []"
    by (auto simp: process_planning_response_def split: if_splits)
  obtain preserved idx h1 where s: "scan_loop parts 0 [] h = (preserved, idx, h1)"
    by (metis prod_cases3)
  let ?extra = "if 0 < idx
     then takeWhile (\<lambda>r. is_function_call (h1 ! r)) (drop (nat (idx + 1)) parts) else []"
  from assms(2) ne s have o: "out = preserved @ ?extra" and h1: "h1 = h'"
    by (auto simp: process_planning_response_def lookahead_takeWhile)
  from scan_marks_only [OF assms(1) s] have m: "marks_only parts h h1" .
  have "r \<in> set parts \<and> function_call (h ! r) \<noteq> None" if "r \<in> set ?extra" for r
  proof -
    from that have a: "r \<in> set (takeWhile (\<lambda>r. is_function_call (h1 ! r)) (drop (nat (idx + 1)) parts))"
      by (simp split: if_splits)
    then have "r \<in> set (drop (nat (idx + 1)) parts)" by (rule set_takeWhileD [THEN conjunct1])
    then have mem: "r \<in> set parts" by (rule in_set_dropD)
    from a have "is_function_call (h1 ! r)" by (rule set_takeWhileD [THEN conjunct2])
    moreover from mem assms(1) have "r < length h" by (simp add: valid_refs_mem)
    ultimately show ?thesis using m mem
      by (simp add: is_function_call_def marks_only_function_call)
  qed
  with s o h1 that show thesis by blast
qed

section \<open>The caller's parts\<close>

text \<open>
  Claim C10. A run changes nothing in a part the caller passed in but its thought flag,
  and that only from its old value to \<^verbatim>\<open>True\<close>: text and function call stay, and a
  flag that is \<^verbatim>\<open>True\<close> stays \<^verbatim>\<open>True\<close>. A text part with the final-answer tag is not
  changed at all and is not in the result; whatever the result holds is one of the
  caller's parts or a part constructed during the run.
\<close>

theorem only_sets_thought:
  assumes "valid_refs h response_parts"
    and "process_planning_response callback_context response_parts h = (out, h')"
  shows "length h \<le> length h'
       \<and> (\<forall>q<length h.
             text (h' ! q) = text (h ! q) \<and> function_call (h' ! q) = function_call (h ! q)
           \<and> (h' ! q = h ! q \<or> h' ! q = (h ! q)\<lparr>thought := Some True\<rparr>)
           \<and> (thought (h ! q) = Some True \<longrightarrow> thought (h' ! q) = Some True))
       \<and> (\<forall>r\<in>set response_parts. \<forall>t.
             function_call (h ! r) = None \<and> text (h ! r) = Some t \<and> contains t FINAL_ANSWER_TAG
             \<longrightarrow> h' ! r = h ! r \<and> (\<forall>ps. out = Some ps \<longrightarrow> r \<notin> set ps))
       \<and> (\<forall>ps. out = Some ps \<longrightarrow>
             (\<forall>q\<in>set ps. q \<in> set response_parts \<or> (length h \<le> q \<and> q < length h')))"
proof (cases out)
  case None
  with assms(2) have "h' = h"
    by (auto simp: process_planning_response_def split: if_splits prod.splits)
  with None show ?thesis by simp
next
  case (Some ps)
  from process_shape [OF assms(1) assms(2) [unfolded Some]] obtain preserved idx extra where
    s: "scan_loop response_parts 0 [] h = (preserved, idx, h')" and ps: "ps = preserved @ extra"
    and extra: "\<forall>r\<in>set extra. r \<in> set response_parts \<and> function_call (h ! r) \<noteq> None"
    by blast
  from scan_marks_only [OF assms(1) s] have m: "marks_only response_parts h h'" .
  from scan_emits [OF assms(1) s] have em: "\<forall>q\<in>set preserved.
       (q \<in> set response_parts \<and> \<not> (function_call (h ! q) = None \<and> has_final_answer (h ! q)))
       \<or> (length h \<le> q \<and> q < length h')" by simp
  have A: "length h \<le> length h'" using m by (rule marks_only_length)
  have B: "text (h' ! q) = text (h ! q) \<and> function_call (h' ! q) = function_call (h ! q)
           \<and> (h' ! q = h ! q \<or> h' ! q = (h ! q)\<lparr>thought := Some True\<rparr>)
           \<and> (thought (h ! q) = Some True \<longrightarrow> thought (h' ! q) = Some True)"
    if "q < length h" for q
    using m that by (cases rule: marks_only_cases) simp_all
  have C: "h' ! r = h ! r \<and> (\<forall>ps'. out = Some ps' \<longrightarrow> r \<notin> set ps')"
    if r: "r \<in> set response_parts" "function_call (h ! r) = None" "text (h ! r) = Some t"
      "contains t FINAL_ANSWER_TAG" for r t
  proof -
    from r(3,4) have fin: "has_final_answer (h ! r)" by (auto simp: has_final_answer_iff)
    from r(1) assms(1) have lt: "r < length h" by (simp add: valid_refs_mem)
    from m lt have "h' ! r = h ! r"
      by (cases rule: marks_only_cases) (simp_all add: fin)
    moreover have "r \<notin> set preserved" using em r(2) fin lt by fastforce
    moreover have "r \<notin> set extra" using extra r(2) by blast
    ultimately show ?thesis using Some ps by simp
  qed
  have D: "q \<in> set response_parts \<or> (length h \<le> q \<and> q < length h')" if "q \<in> set ps" for q
    using that ps em extra by auto
  from A B C D Some show ?thesis by blast
qed

theorem only_sets_thought_witness:
  "valid_refs [new_text_part ''/*PLANNING*/ p'',
               new_text_part ''/*REFLECTION*/ ok /*FINAL_ANSWER*/ 42'',
               call_part ''search''] [0, 1, 2]
   \<and> process_planning_response ()  [0, 1, 2]
        [new_text_part ''/*PLANNING*/ p'',
         new_text_part ''/*REFLECTION*/ ok /*FINAL_ANSWER*/ 42'',
         call_part ''search'']
     = (Some [0, 3, 4, 2],
        [(new_text_part ''/*PLANNING*/ p'')\<lparr>thought := Some True\<rparr>,
         new_text_part ''/*REFLECTION*/ ok /*FINAL_ANSWER*/ 42'',
         call_part ''search'',
         (new_text_part ''/*REFLECTION*/ ok /*FINAL_ANSWER*/'')\<lparr>thought := Some True\<rparr>,
         new_text_part '' 42''])
   \<and> length [new_text_part ''/*PLANNING*/ p'',
              new_text_part ''/*REFLECTION*/ ok /*FINAL_ANSWER*/ 42'',
              call_part ''search'']
     \<le> length [(new_text_part ''/*PLANNING*/ p'')\<lparr>thought := Some True\<rparr>,
         new_text_part ''/*REFLECTION*/ ok /*FINAL_ANSWER*/ 42'',
         call_part ''search'',
         (new_text_part ''/*REFLECTION*/ ok /*FINAL_ANSWER*/'')\<lparr>thought := Some True\<rparr>,
         new_text_part '' 42'']"
proof -
  let ?h = "[new_text_part ''/*PLANNING*/ p'',
             new_text_part ''/*REFLECTION*/ ok /*FINAL_ANSWER*/ 42'',
             call_part ''search'']"
  let ?h' = "[(new_text_part ''/*PLANNING*/ p'')\<lparr>thought := Some True\<rparr>,
         new_text_part ''/*REFLECTION*/ ok /*FINAL_ANSWER*/ 42'',
         call_part ''search'',
         (new_text_part ''/*REFLECTION*/ ok /*FINAL_ANSWER*/'')\<lparr>thought := Some True\<rparr>,
         new_text_part '' 42'']"
  have a: "valid_refs ?h [0, 1, 2]" by (simp add: valid_refs_def)
  have b: "process_planning_response () [0, 1, 2] ?h = (Some [0, 3, 4, 2], ?h')" by code_simp
  from only_sets_thought [OF a b] have "length ?h \<le> length ?h'" by blast
  with a b show ?thesis by blast
qed

text \<open>
  Claim C7, as amended. Whenever a run changes one of the caller's parts, the change is
  the thought flag set on that very part, and that part, not a copy, is in the result. A
  part of the result is one of the caller's parts or a new one; a new one is the head or
  the tail made from a caller's text with the final-answer tag, and that text part itself
  is left as it was.
\<close>

theorem marks_in_place:
  assumes "valid_refs h response_parts"
    and "process_planning_response callback_context response_parts h = (Some out, h')"
  shows "(\<forall>q<length h. h' ! q \<noteq> h ! q \<longrightarrow>
            q \<in> set response_parts \<and> q \<in> set out \<and> h' ! q = (h ! q)\<lparr>thought := Some True\<rparr>)
       \<and> (\<forall>q\<in>set out.
            (q \<in> set response_parts \<and> q < length h)
          \<or> (length h \<le> q \<and> q < length h' \<and>
               (\<exists>r\<in>set response_parts. has_final_answer (h ! r) \<and> h' ! r = h ! r
                   \<and> h' ! q \<in> set (split_parts (h ! r)))))"
proof -
  from process_shape [OF assms] obtain preserved idx extra where
    s: "scan_loop response_parts 0 [] h = (preserved, idx, h')" and ps: "out = preserved @ extra"
    and extra: "\<forall>r\<in>set extra. r \<in> set response_parts \<and> function_call (h ! r) \<noteq> None"
    by blast
  from scan_marks_only [OF assms(1) s] have m: "marks_only response_parts h h'" .
  from scan_emits [OF assms(1) s] have em: "\<forall>q\<in>set preserved.
       (q \<in> set response_parts \<and> \<not> (function_call (h ! q) = None \<and> has_final_answer (h ! q)))
       \<or> (length h \<le> q \<and> q < length h')" by simp
  from scan_changed [OF assms(1) s] have ch: "\<forall>q<length h. h' ! q \<noteq> h ! q \<longrightarrow> q \<in> set preserved"
    by simp
  have A: "q \<in> set response_parts \<and> q \<in> set out \<and> h' ! q = (h ! q)\<lparr>thought := Some True\<rparr>"
    if q: "q < length h" "h' ! q \<noteq> h ! q" for q
  proof -
    from ch q ps have "q \<in> set out" by simp
    moreover from m q(1) have "q \<in> set response_parts \<and> h' ! q = (h ! q)\<lparr>thought := Some True\<rparr>"
      by (cases rule: marks_only_cases) (simp_all add: q(2))
    ultimately show ?thesis by simp
  qed
  have B: "(q \<in> set response_parts \<and> q < length h)
          \<or> (length h \<le> q \<and> q < length h' \<and>
               (\<exists>r\<in>set response_parts. has_final_answer (h ! r) \<and> h' ! r = h ! r
                   \<and> h' ! q \<in> set (split_parts (h ! r))))"
    if q: "q \<in> set out" for q
  proof (cases "q \<in> set response_parts")
    case True
    with assms(1) show ?thesis by (simp add: valid_refs_mem)
  next
    case False
    with q ps extra em have fresh: "length h \<le> q" "q < length h'" by auto
    from scan_fresh [OF assms(1) s fresh] obtain r where r: "r \<in> set response_parts"
      "function_call (h ! r) = None" "has_final_answer (h ! r)"
      "h' ! q \<in> set (split_parts (h ! r))" by blast
    from r(1) assms(1) have "r < length h" by (simp add: valid_refs_mem)
    with m have "h' ! r = h ! r"
      by (cases rule: marks_only_cases) (simp_all add: r(3))
    with r fresh show ?thesis by blast
  qed
  from A B show ?thesis by blast
qed

theorem marks_in_place_witness:
  "valid_refs [new_text_part ''/*PLANNING*/ p'', new_text_part ''/*FINAL_ANSWER*/ 42''] [0, 1]
   \<and> process_planning_response () [0, 1]
        [new_text_part ''/*PLANNING*/ p'', new_text_part ''/*FINAL_ANSWER*/ 42'']
     = (Some [0, 2, 3],
        [(new_text_part ''/*PLANNING*/ p'')\<lparr>thought := Some True\<rparr>,
         new_text_part ''/*FINAL_ANSWER*/ 42'',
         (new_text_part ''/*FINAL_ANSWER*/'')\<lparr>thought := Some True\<rparr>,
         new_text_part '' 42''])
   \<and> (\<exists>r\<in>set [0, 1].
         has_final_answer ([new_text_part ''/*PLANNING*/ p'', new_text_part ''/*FINAL_ANSWER*/ 42''] ! r)
       \<and> (new_text_part ''/*FINAL_ANSWER*/'')\<lparr>thought := Some True\<rparr>
           \<in> set (split_parts
                ([new_text_part ''/*PLANNING*/ p'', new_text_part ''/*FINAL_ANSWER*/ 42''] ! r)))"
proof -
  let ?h = "[new_text_part ''/*PLANNING*/ p'', new_text_part ''/*FINAL_ANSWER*/ 42'']"
  let ?h' = "[(new_text_part ''/*PLANNING*/ p'')\<lparr>thought := Some True\<rparr>,
         new_text_part ''/*FINAL_ANSWER*/ 42'',
         (new_text_part ''/*FINAL_ANSWER*/'')\<lparr>thought := Some True\<rparr>,
         new_text_part '' 42'']"
  have a: "valid_refs ?h [0, 1]" by (simp add: valid_refs_def)
  have b: "process_planning_response () [0, 1] ?h = (Some [0, 2, 3], ?h')" by code_simp
  from marks_in_place [OF a b] have
    "\<forall>q\<in>set [0, 2, 3].
            (q \<in> set [0, 1] \<and> q < length ?h)
          \<or> (length ?h \<le> q \<and> q < length ?h' \<and>
               (\<exists>r\<in>set [0, 1]. has_final_answer (?h ! r) \<and> ?h' ! r = ?h ! r
                   \<and> ?h' ! q \<in> set (split_parts (?h ! r))))"
    by blast
  then have "(2 \<in> set [0, 1] \<and> 2 < length ?h)
          \<or> (length ?h \<le> 2 \<and> 2 < length ?h' \<and>
               (\<exists>r\<in>set [0, 1]. has_final_answer (?h ! r) \<and> ?h' ! r = ?h ! r
                   \<and> ?h' ! 2 \<in> set (split_parts (?h ! r))))"
    by simp
  then have "\<exists>r\<in>set [0, 1]. has_final_answer (?h ! r)
       \<and> (new_text_part ''/*FINAL_ANSWER*/'')\<lparr>thought := Some True\<rparr> \<in> set (split_parts (?h ! r))"
    by (simp, blast)
  with a b show ?thesis by blast
qed

text \<open>
  Claim C7 as stated fails for the head of a split: it is marked as thought and it is in
  the result, but it is a new part, and the caller's part it was cut from has no flag.
\<close>

theorem marks_in_place_counterexample:
  "process_planning_response () [0] [new_text_part ''/*FINAL_ANSWER*/ 42'']
     = (Some [1, 2],
        [new_text_part ''/*FINAL_ANSWER*/ 42'',
         (new_text_part ''/*FINAL_ANSWER*/'')\<lparr>thought := Some True\<rparr>,
         new_text_part '' 42''])
   \<and> \<not> every_thought_mark_on_input [0] [1, 2]
        [new_text_part ''/*FINAL_ANSWER*/ 42'',
         (new_text_part ''/*FINAL_ANSWER*/'')\<lparr>thought := Some True\<rparr>,
         new_text_part '' 42'']
   \<and> thought ([new_text_part ''/*FINAL_ANSWER*/ 42'',
         (new_text_part ''/*FINAL_ANSWER*/'')\<lparr>thought := Some True\<rparr>,
         new_text_part '' 42''] ! 0) = None"
proof -
  have "process_planning_response () [0] [new_text_part ''/*FINAL_ANSWER*/ 42'']
     = (Some [1, 2],
        [new_text_part ''/*FINAL_ANSWER*/ 42'',
         (new_text_part ''/*FINAL_ANSWER*/'')\<lparr>thought := Some True\<rparr>,
         new_text_part '' 42''])" by code_simp
  then show ?thesis by (simp add: every_thought_mark_on_input_def new_text_part_def)
qed

section \<open>Texts only\<close>

lemma text_classification_marks_only:
  assumes "marks_only rs h h1" and "q < length h"
  shows "text_classification (h1 ! q) = text_classification (h ! q)"
  using assms
proof (cases rule: marks_only_cases)
  case 1
  then show ?thesis by simp
next
  case 2
  have "has_final_answer (h1 ! q) = has_final_answer (h ! q)"
    "starts_with_narrative_tag (h1 ! q) = starts_with_narrative_tag (h ! q)"
    using assms by (simp_all add: marks_only_has_final marks_only_narrative)
  with 2 show ?thesis by (simp add: text_classification_def)
qed

lemma map_nth_fresh: "map ((!) (xs @ ys)) [length xs..<length xs + length ys] = ys"
  by (rule nth_equalityI) (simp_all add: nth_append)

lemma marks_only_fresh_same:
  assumes "marks_only parts h1 h'" and "valid_refs h parts" and "length h \<le> q" and "q < length h1"
  shows "h' ! q = h1 ! q"
proof -
  have "q \<notin> set parts" using assms(2,3) valid_refs_mem by fastforce
  with assms(1,4) show ?thesis by (cases rule: marks_only_cases) simp_all
qed

lemma marks_only_marked_stays:
  assumes "marks_only parts h1 h'" and "r < length h1"
    and "h1 ! r = (if starts_with_narrative_tag (h1 ! r) then (h1 ! r)\<lparr>thought := Some True\<rparr> else h1 ! r)"
  shows "h' ! r = h1 ! r"
  using assms(1,2)
proof (cases rule: marks_only_cases)
  case 1
  then show ?thesis .
next
  case 2
  with assms(3) have "h1 ! r = (h1 ! r)\<lparr>thought := Some True\<rparr>" by simp
  with 2(5) show ?thesis by simp
qed

lemma handle_values:
  assumes "r < length h" and "r \<in> set parts" and "valid_refs h parts"
    and "function_call (h ! r) = None"
    and "handle_non_function_call_parts r acc h = (a1, h1)"
    and "marks_only parts h1 h'"
  shows "\<exists>new1. a1 = acc @ new1 \<and> map ((!) h') new1 = text_classification (h ! r)
           \<and> filter (\<lambda>q. q < length h) new1 = filter (\<lambda>r. \<not> has_final_answer (h ! r)) [r]"
proof (cases "has_final_answer (h ! r)")
  case True
  from handle_final_heap [OF True assms(5)] have h1: "h1 = h @ split_parts (h ! r)"
    and a1: "a1 = acc @ [length h..<length h1]" by simp_all
  have "map ((!) h') [length h..<length h1] = map ((!) h1) [length h..<length h1]"
    using marks_only_fresh_same [OF assms(6) assms(3)] by simp
  also have "\<dots> = split_parts (h ! r)" using h1 map_nth_fresh by simp
  finally have "map ((!) h') [length h..<length h1] = text_classification (h ! r)"
    using True by (simp add: text_classification_def)
  moreover have "filter (\<lambda>q. q < length h) [length h..<length h1] = []"
    by (simp add: filter_empty_conv)
  ultimately show ?thesis using a1 True by simp
next
  case False
  let ?v = "if starts_with_narrative_tag (h ! r) then (h ! r)\<lparr>thought := Some True\<rparr> else h ! r"
  from False assms(5) have a1: "a1 = acc @ [r]"
    and h1: "h1 = (if starts_with_narrative_tag (h ! r) then h[r := (h ! r)\<lparr>thought := Some True\<rparr>] else h)"
    by (simp_all add: handle_plain)
  from h1 assms(1) have v: "h1 ! r = ?v" and len: "length h1 = length h" by auto
  have "starts_with_narrative_tag (h1 ! r) = starts_with_narrative_tag (h ! r)"
    using v by (simp add: starts_with_narrative_tag_def)
  with v have "h1 ! r = (if starts_with_narrative_tag (h1 ! r) then (h1 ! r)\<lparr>thought := Some True\<rparr> else h1 ! r)"
    by simp
  from marks_only_marked_stays [OF assms(6) _ this] assms(1) len have "h' ! r = h1 ! r" by simp
  with v False have "map ((!) h') [r] = text_classification (h ! r)"
    by (simp add: text_classification_def)
  with a1 False assms(1) show ?thesis by simp
qed

lemma scan_text_only:
  "valid_refs h parts \<Longrightarrow> \<forall>r\<in>set parts. function_call (h ! r) = None \<Longrightarrow>
   scan_loop parts i acc h = (acc', idx, h') \<Longrightarrow>
     idx = - 1 \<and>
     (\<exists>new. acc' = acc @ new
        \<and> map ((!) h') new = concat (map (\<lambda>r. text_classification (h ! r)) (drop i parts))
        \<and> filter (\<lambda>q. q < length h) new
            = filter (\<lambda>r. \<not> has_final_answer (h ! r)) (drop i parts))"
proof (induction parts i acc h rule: scan_induct)
  case (at_end parts i acc h)
  then show ?case by (simp add: scan_done)
next
  case (nameless parts i acc h fc)
  from nameless.hyps(1) nameless.prems(2) have "function_call (h ! (parts ! i)) = None" by simp
  with nameless.hyps(2) show ?case by simp
next
  case (named parts i acc h fc)
  from named.hyps(1) named.prems(2) have "function_call (h ! (parts ! i)) = None" by simp
  with named.hyps(2) show ?case by simp
next
  case (plain parts i acc h a1 h1)
  let ?r = "parts ! i"
  have r: "?r < length h" "?r \<in> set parts"
    using plain.hyps(1) plain.prems(1) by (simp_all add: valid_refs_nth)
  from handle_marks_only [OF r plain.hyps(2,3)] have m1: "marks_only parts h h1" .
  then have len1: "length h \<le> length h1" by (rule marks_only_length)
  then have v1: "valid_refs h1 parts" using plain.prems(1) valid_refs_mono by blast
  have fc1: "\<forall>r\<in>set parts. function_call (h1 ! r) = None"
    using plain.prems(1,2) m1 by (simp add: marks_only_function_call valid_refs_mem)
  have s1: "scan_loop parts (Suc i) a1 h1 = (acc', idx, h')"
    using plain.prems(3) plain.hyps by (simp add: scan_text)
  from scan_marks_only [OF v1 s1] have m2: "marks_only parts h1 h'" .
  from plain.IH [OF v1 fc1 s1] obtain new2 where idx: "idx = - 1" and new2: "acc' = a1 @ new2"
    "map ((!) h') new2 = concat (map (\<lambda>r. text_classification (h1 ! r)) (drop (Suc i) parts))"
    "filter (\<lambda>q. q < length h1) new2
       = filter (\<lambda>r. \<not> has_final_answer (h1 ! r)) (drop (Suc i) parts)" by blast
  from handle_values [OF r plain.prems(1) plain.hyps(2,3) m2] obtain new1 where
    new1: "a1 = acc @ new1" "map ((!) h') new1 = text_classification (h ! ?r)"
    "filter (\<lambda>q. q < length h) new1 = filter (\<lambda>r. \<not> has_final_answer (h ! r)) [?r]" by blast
  have d: "drop i parts = ?r # drop (Suc i) parts"
    using plain.hyps(1) by (simp add: Cons_nth_drop_Suc)
  have old: "q < length h" if "q \<in> set (drop (Suc i) parts)" for q
    using that plain.prems(1) by (meson in_set_dropD valid_refs_mem)
  have v2: "map (\<lambda>r. text_classification (h1 ! r)) (drop (Suc i) parts)
          = map (\<lambda>r. text_classification (h ! r)) (drop (Suc i) parts)"
    using m1 old by (simp add: text_classification_marks_only)
  have f2: "filter (\<lambda>r. \<not> has_final_answer (h1 ! r)) (drop (Suc i) parts)
          = filter (\<lambda>r. \<not> has_final_answer (h ! r)) (drop (Suc i) parts)"
    using m1 old by (auto intro!: filter_cong simp: marks_only_has_final)
  from scan_emits [OF v1 s1] new2(1) have em: "\<forall>q\<in>set new2. q \<in> set parts
      \<or> (length h1 \<le> q \<and> q < length h')" by auto
  have f3: "filter (\<lambda>q. q < length h) new2 = filter (\<lambda>q. q < length h1) new2"
  proof (rule filter_cong [OF refl])
    fix q assume "q \<in> set new2"
    with em consider "q \<in> set parts" | "length h1 \<le> q" by blast
    then show "(q < length h) = (q < length h1)"
    proof cases
      case 1
      with plain.prems(1) have "q < length h" by (simp add: valid_refs_mem)
      with len1 show ?thesis by simp
    next
      case 2
      with len1 show ?thesis by simp
    qed
  qed
  have "acc' = acc @ (new1 @ new2)" using new1(1) new2(1) by simp
  moreover have "map ((!) h') (new1 @ new2)
      = concat (map (\<lambda>r. text_classification (h ! r)) (drop i parts))"
    using new1(2) new2(2) v2 d by simp
  moreover have "filter (\<lambda>q. q < length h) (new1 @ new2)
      = filter (\<lambda>r. \<not> has_final_answer (h ! r)) (drop i parts)"
    using new1(3) new2(3) f2 f3 d by simp
  ultimately show ?case using idx by blast
qed

lemma scan_marks_all:
  "valid_refs h parts \<Longrightarrow> \<forall>r\<in>set parts. function_call (h ! r) = None \<Longrightarrow>
   scan_loop parts i acc h = (acc', idx, h') \<Longrightarrow> i \<le> k \<Longrightarrow> k < length parts \<Longrightarrow>
   \<not> has_final_answer (h ! (parts ! k)) \<Longrightarrow> starts_with_narrative_tag (h ! (parts ! k)) \<Longrightarrow>
     thought (h' ! (parts ! k)) = Some True"
proof (induction parts i acc h rule: scan_induct)
  case (at_end parts i acc h)
  then show ?case by simp
next
  case (nameless parts i acc h fc)
  from nameless.hyps(1) nameless.prems(2) have "function_call (h ! (parts ! i)) = None" by simp
  with nameless.hyps(2) show ?case by simp
next
  case (named parts i acc h fc)
  from named.hyps(1) named.prems(2) have "function_call (h ! (parts ! i)) = None" by simp
  with named.hyps(2) show ?case by simp
next
  case (plain parts i acc h a1 h1)
  let ?r = "parts ! i"
  have r: "?r < length h" "?r \<in> set parts"
    using plain.hyps(1) plain.prems(1) by (simp_all add: valid_refs_nth)
  from handle_marks_only [OF r plain.hyps(2,3)] have m1: "marks_only parts h h1" .
  then have len1: "length h \<le> length h1" by (rule marks_only_length)
  then have v1: "valid_refs h1 parts" using plain.prems(1) valid_refs_mono by blast
  have fc1: "\<forall>r\<in>set parts. function_call (h1 ! r) = None"
    using plain.prems(1,2) m1 by (simp add: marks_only_function_call valid_refs_mem)
  have s1: "scan_loop parts (Suc i) a1 h1 = (acc', idx, h')"
    using plain.prems(3) plain.hyps by (simp add: scan_text)
  from scan_marks_only [OF v1 s1] have m2: "marks_only parts h1 h'" .
  have k: "parts ! k < length h" using plain.prems(1,5) by (simp add: valid_refs_nth)
  show ?case
  proof (cases "k = i")
    case True
    with plain.hyps(3) plain.prems(6,7) have "h1 = h[?r := (h ! ?r)\<lparr>thought := Some True\<rparr>]"
      by (simp add: handle_plain)
    with r(1) have t1: "thought (h1 ! ?r) = Some True" by simp
    from r(1) len1 have "?r < length h1" by simp
    with m2 have "thought (h' ! ?r) = Some True"
      by (cases rule: marks_only_cases) (simp_all add: t1)
    with True show ?thesis by simp
  next
    case False
    with plain.prems(4) have "Suc i \<le> k" by simp
    moreover have "\<not> has_final_answer (h1 ! (parts ! k))"
      "starts_with_narrative_tag (h1 ! (parts ! k))"
      using m1 k plain.prems(6,7) by (simp_all add: marks_only_has_final marks_only_narrative)
    ultimately show ?thesis using plain.IH [OF v1 fc1 s1] plain.prems(5) by blast
  qed
qed

lemma split_parts_text_of:
  assumes "has_final_answer p"
  shows "concat (map text_of (split_parts p)) = text_of p"
proof -
  from assms obtain t where t: "text p = Some t" "contains t FINAL_ANSWER_TAG"
    by (auto simp: has_final_answer_iff)
  from split_at_last [OF tag_nonempty t(2)] obtain i where
    "split_by_last_pattern t FINAL_ANSWER_TAG
       = (take (i + length FINAL_ANSWER_TAG) t, drop (i + length FINAL_ANSWER_TAG) t)" by blast
  with t(1) show ?thesis
    by (simp add: split_parts_def text_of_def new_text_part_def)
qed

lemma text_classification_text_of:
  "concat (map text_of (text_classification p)) = text_of p"
  by (simp add: text_classification_def split_parts_text_of text_of_def)

lemma concat_text_classification:
  "concat (map text_of (concat (map (\<lambda>r. text_classification (h ! r)) rs)))
     = concat (map (\<lambda>r. text_of (h ! r)) rs)"
  by (induction rs) (simp_all add: text_classification_text_of)

text \<open>
  Claim C2, as amended. For a non-empty list of parts none of which is a function call,
  the result is, part for part and in order, what the text classification gives: a part
  without the final-answer tag is kept as the same object, marked as thought if its text
  starts with a narrative tag and otherwise as it was; a text with the final-answer tag
  is replaced by its new head, marked as thought, and its new tail, not marked, if there
  is one. So the old objects of the result are the input parts without the tag, in
  order, the texts of the result put together are the texts of the input put together,
  and such a kept part is marked at the end iff it starts with a narrative tag or was
  marked before.
\<close>

theorem text_only_result:
  assumes "valid_refs h response_parts" and "response_parts \<noteq> []"
    and "\<forall>r\<in>set response_parts. function_call (h ! r) = None"
  shows "\<exists>out h'.
           process_planning_response callback_context response_parts h = (Some out, h')
         \<and> map ((!) h') out = concat (map (\<lambda>r. text_classification (h ! r)) response_parts)
         \<and> filter (\<lambda>q. q < length h) out
             = filter (\<lambda>r. \<not> has_final_answer (h ! r)) response_parts
         \<and> concat (map (\<lambda>q. text_of (h' ! q)) out)
             = concat (map (\<lambda>r. text_of (h ! r)) response_parts)
         \<and> (\<forall>r\<in>set response_parts. \<not> has_final_answer (h ! r) \<longrightarrow>
               (thought (h' ! r) = Some True
                  \<longleftrightarrow> starts_with_narrative_tag (h ! r) \<or> thought (h ! r) = Some True))"
proof -
  obtain out idx h' where s: "scan_loop response_parts 0 [] h = (out, idx, h')"
    by (metis prod_cases3)
  from scan_text_only [OF assms(1,3) s] have idx: "idx = - 1"
    and v: "map ((!) h') out = concat (map (\<lambda>r. text_classification (h ! r)) response_parts)"
    and f: "filter (\<lambda>q. q < length h) out
             = filter (\<lambda>r. \<not> has_final_answer (h ! r)) response_parts"
    by simp_all
  from assms(2) s idx have p: "process_planning_response callback_context response_parts h
      = (Some out, h')"
    by (simp add: process_planning_response_def)
  have "concat (map (\<lambda>q. text_of (h' ! q)) out) = concat (map text_of (map ((!) h') out))"
    by (simp add: comp_def)
  also have "\<dots> = concat (map (\<lambda>r. text_of (h ! r)) response_parts)"
    by (simp only: v concat_text_classification)
  finally have c: "concat (map (\<lambda>q. text_of (h' ! q)) out)
      = concat (map (\<lambda>r. text_of (h ! r)) response_parts)" .
  from scan_marks_only [OF assms(1) s] have m: "marks_only response_parts h h'" .
  have t: "thought (h' ! r) = Some True
             \<longleftrightarrow> starts_with_narrative_tag (h ! r) \<or> thought (h ! r) = Some True"
    if r: "r \<in> set response_parts" "\<not> has_final_answer (h ! r)" for r
  proof
    assume a: "thought (h' ! r) = Some True"
    from r(1) assms(1) have "r < length h" by (simp add: valid_refs_mem)
    with m show "starts_with_narrative_tag (h ! r) \<or> thought (h ! r) = Some True"
      by (cases rule: marks_only_cases) (use a in simp_all)
  next
    assume a: "starts_with_narrative_tag (h ! r) \<or> thought (h ! r) = Some True"
    from r(1) assms(1) have lt: "r < length h" by (simp add: valid_refs_mem)
    show "thought (h' ! r) = Some True"
    proof (cases "starts_with_narrative_tag (h ! r)")
      case True
      from r(1) obtain k where k: "k < length response_parts" "response_parts ! k = r"
        by (auto simp: in_set_conv_nth)
      from scan_marks_all [OF assms(1,3) s _ k(1)] r(2) True k(2) show ?thesis by simp
    next
      case False
      with a have "thought (h ! r) = Some True" by simp
      with m lt show ?thesis by (cases rule: marks_only_cases) simp_all
    qed
  qed
  from p v f c t show ?thesis by blast
qed

theorem text_only_result_witness:
  "valid_refs [new_text_part ''/*PLANNING*/ p'', new_text_part ''x'',
               new_text_part ''/*FINAL_ANSWER*/ 42''] [0, 1, 2]
   \<and> [0, 1, 2] \<noteq> ([] :: ref list)
   \<and> process_planning_response () [0, 1, 2]
        [new_text_part ''/*PLANNING*/ p'', new_text_part ''x'', new_text_part ''/*FINAL_ANSWER*/ 42'']
     = (Some [0, 1, 3, 4],
        [(new_text_part ''/*PLANNING*/ p'')\<lparr>thought := Some True\<rparr>, new_text_part ''x'',
         new_text_part ''/*FINAL_ANSWER*/ 42'',
         (new_text_part ''/*FINAL_ANSWER*/'')\<lparr>thought := Some True\<rparr>, new_text_part '' 42''])
   \<and> map ((!) [(new_text_part ''/*PLANNING*/ p'')\<lparr>thought := Some True\<rparr>, new_text_part ''x'',
         new_text_part ''/*FINAL_ANSWER*/ 42'',
         (new_text_part ''/*FINAL_ANSWER*/'')\<lparr>thought := Some True\<rparr>, new_text_part '' 42''])
        [0, 1, 3, 4]
     = concat (map (\<lambda>r. text_classification
         ([new_text_part ''/*PLANNING*/ p'', new_text_part ''x'',
           new_text_part ''/*FINAL_ANSWER*/ 42''] ! r)) [0, 1, 2])"
proof -
  let ?h = "[new_text_part ''/*PLANNING*/ p'', new_text_part ''x'',
             new_text_part ''/*FINAL_ANSWER*/ 42'']"
  let ?h' = "[(new_text_part ''/*PLANNING*/ p'')\<lparr>thought := Some True\<rparr>, new_text_part ''x'',
         new_text_part ''/*FINAL_ANSWER*/ 42'',
         (new_text_part ''/*FINAL_ANSWER*/'')\<lparr>thought := Some True\<rparr>, new_text_part '' 42'']"
  have a: "valid_refs ?h [0, 1, 2]" by (simp add: valid_refs_def)
  have b: "[0, 1, 2] \<noteq> ([] :: ref list)" by simp
  have c: "\<forall>r\<in>set [0, 1, 2]. function_call (?h ! r) = None"
    by (simp add: new_text_part_def)
  have d: "process_planning_response () [0, 1, 2] ?h = (Some [0, 1, 3, 4], ?h')" by code_simp
  from text_only_result [OF a b c, of "()"] obtain out h' where
    "process_planning_response () [0, 1, 2] ?h = (Some out, h')"
    "map ((!) h') out = concat (map (\<lambda>r. text_classification (?h ! r)) [0, 1, 2])" by blast
  with d have "map ((!) ?h') [0, 1, 3, 4]
      = concat (map (\<lambda>r. text_classification (?h ! r)) [0, 1, 2])" by simp
  with a b d show ?thesis by blast
qed

text \<open>
  Claim C2 as stated fails where a text holds the final-answer tag: the one input text
  \<^verbatim>\<open>/*FINAL_ANSWER*//*PLANNING*/ x\<close> gives two parts, so the texts are not kept one
  for one, and the second part is not marked although it starts with a narrative tag.
\<close>

theorem text_only_counterexample:
  "process_planning_response () [0] [new_text_part ''/*FINAL_ANSWER*//*PLANNING*/ x'']
     = (Some [1, 2],
        [new_text_part ''/*FINAL_ANSWER*//*PLANNING*/ x'',
         (new_text_part ''/*FINAL_ANSWER*/'')\<lparr>thought := Some True\<rparr>,
         new_text_part ''/*PLANNING*/ x''])
   \<and> \<not> texts_kept_and_flagged [0] [new_text_part ''/*FINAL_ANSWER*//*PLANNING*/ x''] [1, 2]
        [new_text_part ''/*FINAL_ANSWER*//*PLANNING*/ x'',
         (new_text_part ''/*FINAL_ANSWER*/'')\<lparr>thought := Some True\<rparr>,
         new_text_part ''/*PLANNING*/ x'']
   \<and> starts_with_narrative_tag (new_text_part ''/*PLANNING*/ x'')
   \<and> thought (new_text_part ''/*PLANNING*/ x'') = None"
proof -
  have a: "process_planning_response () [0] [new_text_part ''/*FINAL_ANSWER*//*PLANNING*/ x'']
     = (Some [1, 2],
        [new_text_part ''/*FINAL_ANSWER*//*PLANNING*/ x'',
         (new_text_part ''/*FINAL_ANSWER*/'')\<lparr>thought := Some True\<rparr>,
         new_text_part ''/*PLANNING*/ x''])" by code_simp
  have b: "starts_with_narrative_tag (new_text_part ''/*PLANNING*/ x'')" by code_simp
  have c: "thought (new_text_part ''/*PLANNING*/ x'') = None" by (simp add: new_text_part_def)
  from a b c show ?thesis by (simp add: texts_kept_and_flagged_def)
qed

section \<open>Final answer before narrative tag\<close>

text \<open>
  Claim C6. The test for the final-answer tag comes first. When the text holds the tag
  (\<open>has_final_answer\<close>, that is: the part has a text and the tag occurs in it), the
  part is split and nothing else happens, whether or not the text starts with a
  narrative tag: the store grows by the new parts, these are what is appended, and the
  part itself is neither marked nor appended. Only when the tag is absent is the part
  itself appended, marked as thought if it starts with a narrative tag.
\<close>

theorem final_answer_precedence:
  assumes "r < length h"
    and "handle_non_function_call_parts r preserved h = (preserved', h')"
  shows "(has_final_answer (h ! r) \<longleftrightarrow> (\<exists>t. text (h ! r) = Some t \<and> contains t FINAL_ANSWER_TAG))
       \<and> (has_final_answer (h ! r) \<longrightarrow>
             h' = h @ split_parts (h ! r) \<and> preserved' = preserved @ [length h..<length h']
           \<and> h' ! r = h ! r \<and> r \<notin> set [length h..<length h'])
       \<and> (\<not> has_final_answer (h ! r) \<longrightarrow>
             preserved' = preserved @ [r]
           \<and> h' = (if starts_with_narrative_tag (h ! r)
                    then h[r := (h ! r)\<lparr>thought := Some True\<rparr>] else h))
       \<and> (h' ! r \<noteq> h ! r \<longrightarrow> \<not> has_final_answer (h ! r) \<and> starts_with_narrative_tag (h ! r))"
proof -
  have A: "has_final_answer (h ! r) \<longleftrightarrow> (\<exists>t. text (h ! r) = Some t \<and> contains t FINAL_ANSWER_TAG)"
    by (rule has_final_answer_iff)
  have B: "h' = h @ split_parts (h ! r) \<and> preserved' = preserved @ [length h..<length h']
           \<and> h' ! r = h ! r \<and> r \<notin> set [length h..<length h']"
    if fin: "has_final_answer (h ! r)"
  proof -
    from handle_final_heap [OF fin assms(2)] have "h' = h @ split_parts (h ! r)"
      "preserved' = preserved @ [length h..<length h']" by simp_all
    moreover from this(1) assms(1) have "h' ! r = h ! r" by (simp add: nth_append)
    moreover from assms(1) have "r \<notin> set [length h..<length h']" by simp
    ultimately show ?thesis by simp
  qed
  have C: "preserved' = preserved @ [r]
           \<and> h' = (if starts_with_narrative_tag (h ! r)
                    then h[r := (h ! r)\<lparr>thought := Some True\<rparr>] else h)"
    if "\<not> has_final_answer (h ! r)"
    using that assms(2) by (simp add: handle_plain)
  have D: "\<not> has_final_answer (h ! r) \<and> starts_with_narrative_tag (h ! r)" if "h' ! r \<noteq> h ! r"
  proof (cases "has_final_answer (h ! r)")
    case True
    with B that show ?thesis by simp
  next
    case False
    with C that show ?thesis by (auto split: if_splits)
  qed
  from A B C D show ?thesis by blast
qed

theorem final_answer_precedence_witness:
  "(0::nat) < length [new_text_part ''/*REFLECTION*/ ok /*FINAL_ANSWER*/ 42'']
   \<and> starts_with_narrative_tag ([new_text_part ''/*REFLECTION*/ ok /*FINAL_ANSWER*/ 42''] ! 0)
   \<and> has_final_answer ([new_text_part ''/*REFLECTION*/ ok /*FINAL_ANSWER*/ 42''] ! 0)
   \<and> handle_non_function_call_parts 0 [] [new_text_part ''/*REFLECTION*/ ok /*FINAL_ANSWER*/ 42'']
       = ([1, 2],
          [new_text_part ''/*REFLECTION*/ ok /*FINAL_ANSWER*/ 42'',
           (new_text_part ''/*REFLECTION*/ ok /*FINAL_ANSWER*/'')\<lparr>thought := Some True\<rparr>,
           new_text_part '' 42''])
   \<and> [new_text_part ''/*REFLECTION*/ ok /*FINAL_ANSWER*/ 42'',
           (new_text_part ''/*REFLECTION*/ ok /*FINAL_ANSWER*/'')\<lparr>thought := Some True\<rparr>,
           new_text_part '' 42'']
       = [new_text_part ''/*REFLECTION*/ ok /*FINAL_ANSWER*/ 42'']
           @ split_parts ([new_text_part ''/*REFLECTION*/ ok /*FINAL_ANSWER*/ 42''] ! 0)"
proof -
  let ?h = "[new_text_part ''/*REFLECTION*/ ok /*FINAL_ANSWER*/ 42'']"
  let ?h' = "[new_text_part ''/*REFLECTION*/ ok /*FINAL_ANSWER*/ 42'',
           (new_text_part ''/*REFLECTION*/ ok /*FINAL_ANSWER*/'')\<lparr>thought := Some True\<rparr>,
           new_text_part '' 42'']"
  have a: "(0::nat) < length ?h" by simp
  have b: "handle_non_function_call_parts 0 [] ?h = ([1, 2], ?h')" by code_simp
  have c: "starts_with_narrative_tag (?h ! 0)" by code_simp
  have d: "has_final_answer (?h ! 0)" by code_simp
  from final_answer_precedence [OF a b] d have "?h' = ?h @ split_parts (?h ! 0)" by blast
  with a b c d show ?thesis by blast
qed

section \<open>The instruction text\<close>

lemma sublist_behind: "sublist xs zs \<Longrightarrow> sublist xs (ys @ zs)"
  by (metis append.assoc sublist_def)

lemma sublist_before: "sublist xs ys \<Longrightarrow> sublist xs (ys @ zs)"
  by (metis append.assoc sublist_def)

lemma planning_in_preamble: "sublist PLANNING_TAG high_level_preamble"
  unfolding high_level_preamble_def
  by (rule sublist_append_rightI | rule sublist_behind)+

lemma action_in_preamble: "sublist ACTION_TAG high_level_preamble"
  unfolding high_level_preamble_def
  by (rule sublist_append_rightI | rule sublist_behind)+

lemma reasoning_in_preamble: "sublist REASONING_TAG high_level_preamble"
  unfolding high_level_preamble_def
  by (rule sublist_append_rightI | rule sublist_behind)+

lemma reflection_in_preamble: "sublist REFLECTION_TAG high_level_preamble"
  unfolding high_level_preamble_def
  by (rule sublist_append_rightI | rule sublist_behind)+

lemma replanning_in_preamble: "sublist REPLANNING_TAG high_level_preamble"
  unfolding high_level_preamble_def
  by (rule sublist_append_rightI | rule sublist_behind)+

lemma final_answer_in_preamble: "sublist FINAL_ANSWER_TAG high_level_preamble"
  unfolding high_level_preamble_def
  by (rule sublist_append_rightI | rule sublist_behind)+

lemma instruction_unfolded:
  "build_reflection_planner_instruction =
     high_level_preamble @ ''\<newline>\<newline>'' @
     planning_preamble @ ''\<newline>\<newline>'' @
     reasoning_preamble @ ''\<newline>\<newline>'' @
     reflection_preamble @ ''\<newline>\<newline>'' @
     replanning_preamble @ ''\<newline>\<newline>'' @
     final_answer_preamble @ ''\<newline>\<newline>'' @
     tool_code_without_python_libraries_preamble"
  unfolding build_reflection_planner_instruction_def join.simps ..

text \<open>
  Claim C8. The instruction builder takes a context and a request and uses neither: it
  returns the instruction text, the same for any two calls whatever their arguments. It
  reads and writes no part and no other state, so its model has no store at all.
\<close>

theorem instruction_ignores_arguments:
  "build_planning_instruction readonly_context llm_request
     = build_planning_instruction readonly_context' llm_request'
   \<and> build_planning_instruction readonly_context llm_request
     = build_reflection_planner_instruction"
  by (simp add: build_planning_instruction_def)

theorem instruction_ignores_arguments_witness:
  "build_planning_instruction () (0::nat) = build_planning_instruction True ''request''"
  using instruction_ignores_arguments [of "()" "0::nat" True "''request''"] by simp

text \<open>
  Claim C9. The instruction is the seven blocks in the order of the source, with a blank
  line (two newlines) between one block and the next, and each of the six tags occurs in
  it.
\<close>

theorem instruction_blocks:
  "build_planning_instruction readonly_context llm_request =
     high_level_preamble @ ''\<newline>\<newline>'' @
     planning_preamble @ ''\<newline>\<newline>'' @
     reasoning_preamble @ ''\<newline>\<newline>'' @
     reflection_preamble @ ''\<newline>\<newline>'' @
     replanning_preamble @ ''\<newline>\<newline>'' @
     final_answer_preamble @ ''\<newline>\<newline>'' @
     tool_code_without_python_libraries_preamble
   \<and> contains (build_planning_instruction readonly_context llm_request) PLANNING_TAG
   \<and> contains (build_planning_instruction readonly_context llm_request) REASONING_TAG
   \<and> contains (build_planning_instruction readonly_context llm_request) ACTION_TAG
   \<and> contains (build_planning_instruction readonly_context llm_request) REFLECTION_TAG
   \<and> contains (build_planning_instruction readonly_context llm_request) REPLANNING_TAG
   \<and> contains (build_planning_instruction readonly_context llm_request) FINAL_ANSWER_TAG"
proof -
  let ?i = "build_planning_instruction readonly_context llm_request"
  have u: "?i =
     high_level_preamble @ ''\<newline>\<newline>'' @
     planning_preamble @ ''\<newline>\<newline>'' @
     reasoning_preamble @ ''\<newline>\<newline>'' @
     reflection_preamble @ ''\<newline>\<newline>'' @
     replanning_preamble @ ''\<newline>\<newline>'' @
     final_answer_preamble @ ''\<newline>\<newline>'' @
     tool_code_without_python_libraries_preamble"
    by (simp only: build_planning_instruction_def instruction_unfolded)
  have "sublist tag ?i" if "sublist tag high_level_preamble" for tag
    unfolding u using that by (rule sublist_before)
  then have "contains ?i tag" if "sublist tag high_level_preamble" for tag
    using that by (simp only: contains_sublist)
  from this [OF planning_in_preamble] this [OF reasoning_in_preamble]
    this [OF action_in_preamble] this [OF reflection_in_preamble]
    this [OF replanning_in_preamble] this [OF final_answer_in_preamble] u
  show ?thesis by blast
qed

theorem instruction_blocks_witness:
  "contains (build_planning_instruction () ()) FINAL_ANSWER_TAG
   \<and> contains (build_planning_instruction () ()) REFLECTION_TAG"
  using instruction_blocks [of "()" "()"] by blast

end
